theory Spec2Isabelle
  imports Main
begin

section \<open>Text, exceptions and the two files\<close>

text \<open>
  The program (\<^verbatim>\<open>src/main.py\<close>) keeps its whole state in two text files,
  \<^verbatim>\<open>finances.csv\<close> and \<^verbatim>\<open>last_id.txt\<close>, and talks to the user through
  \<^verbatim>\<open>input\<close> and \<^verbatim>\<open>print\<close>. A Python \<^verbatim>\<open>str\<close> is modelled as a \<open>string\<close>, one
  \<open>char\<close> standing for one code point (so only the code points 0..255 are covered), and a
  file by its decoded text. Exceptions are values of the type \<open>error\<close>.
\<close>

abbreviation (input) CR :: char where "CR \<equiv> CHR 0x0D"
abbreviation (input) LF :: char where "LF \<equiv> CHR 0x0A"
abbreviation (input) DQUOTE :: char where "DQUOTE \<equiv> CHR 0x22"
abbreviation (input) COMMA :: char where "COMMA \<equiv> CHR 0x2C"

datatype error =
    FileNotFoundError
  | IndexError
  | KeyError
  | ValueError
  | EOFError
  | CsvError

text \<open>
  \<^verbatim>\<open>open(name, mode='r', encoding='utf-8')\<close> without \<^verbatim>\<open>newline=''\<close> reads in universal
  newlines mode: \<^verbatim>\<open>\r\n\<close> and a lone \<^verbatim>\<open>\r\<close> both arrive as \<^verbatim>\<open>\n\<close>.
\<close>

fun universal_newlines :: "string \<Rightarrow> string" where
  "universal_newlines [] = []"
| "universal_newlines [c] = [if c = CR then LF else c]"
| "universal_newlines (c # d # cs) =
     (if c = CR \<and> d = LF then LF # universal_newlines cs
      else (if c = CR then LF else c) # universal_newlines (d # cs))"

text \<open>Iterating over a text file yields its lines, each with its final \<^verbatim>\<open>\n\<close>.\<close>

fun readlines :: "string \<Rightarrow> string list" where
  "readlines [] = []"
| "readlines (c # cs) =
     (if c = LF then [c] # readlines cs
      else (case readlines cs of [] \<Rightarrow> [[c]] | l # ls \<Rightarrow> (c # l) # ls))"

section \<open>The csv module, excel dialect\<close>

text \<open>
  \<^verbatim>\<open>csv.writer\<close>, \<^verbatim>\<open>csv.reader\<close>, \<^verbatim>\<open>csv.DictWriter\<close> and \<^verbatim>\<open>csv.DictReader\<close> are used with
  their defaults: delimiter \<^verbatim>\<open>,\<close>, quote character \<^verbatim>\<open>"\<close>, doubled quotes, minimal quoting,
  line terminator \<^verbatim>\<open>\r\n\<close>, no escape character, not strict. The definitions follow
  CPython's \<^verbatim>\<open>Modules/_csv.c\<close> and \<^verbatim>\<open>Lib/csv.py\<close>, specialised to these defaults.
\<close>

subsection \<open>Writer\<close>

definition special_char :: "char \<Rightarrow> bool" where
  "special_char c = (c = COMMA \<or> c = DQUOTE \<or> c = CR \<or> c = LF)"

definition needs_quote :: "string \<Rightarrow> bool" where
  "needs_quote f = list_ex special_char f"

fun double_quotes :: "string \<Rightarrow> string" where
  "double_quotes [] = []"
| "double_quotes (c # cs) =
     (if c = DQUOTE then DQUOTE # DQUOTE # double_quotes cs else c # double_quotes cs)"

text \<open>\<^verbatim>\<open>join_append\<close>: the text of one field, quoted when it holds a special character.\<close>

definition join_append :: "string \<Rightarrow> string" where
  "join_append f = (if needs_quote f then DQUOTE # double_quotes f @ [DQUOTE] else f)"

fun join_fields :: "string list \<Rightarrow> string" where
  "join_fields [] = []"
| "join_fields [f] = join_append f"
| "join_fields (f # g # fs) = join_append f @ COMMA # join_fields (g # fs)"

text \<open>
  \<^verbatim>\<open>writerow\<close>: the fields joined by the delimiter, then the line terminator. A record made
  of one empty field is written as a pair of quotes.
\<close>

definition writerow :: "string list \<Rightarrow> string" where
  "writerow fs = (if fs = [[]] then [DQUOTE, DQUOTE] else join_fields fs) @ [CR, LF]"

subsection \<open>Reader\<close>

text \<open>
  The reader is the state machine of \<^verbatim>\<open>parse_process_char\<close>. The states reached only
  through an escape character are left out, the dialect having none. A field may not grow
  beyond \<^verbatim>\<open>csv.field_size_limit()\<close>, which the program leaves at its default of 131072
  characters: \<^verbatim>\<open>parse_add_char\<close> raises \<^verbatim>\<open>_csv.Error\<close> on the next character.
\<close>

datatype parser_state =
    START_RECORD
  | START_FIELD
  | IN_FIELD
  | IN_QUOTED_FIELD
  | QUOTE_IN_QUOTED_FIELD
  | EAT_CRNL

record parser =
  p_state :: parser_state
  p_field :: string
  p_fields :: "string list"

definition parse_reset :: parser where
  "parse_reset = \<lparr>p_state = START_RECORD, p_field = [], p_fields = []\<rparr>"

definition parse_save_field :: "parser \<Rightarrow> parser" where
  "parse_save_field p = p\<lparr>p_fields := p_fields p @ [p_field p], p_field := []\<rparr>"

definition field_limit :: nat where
  "field_limit = 131072"

definition parse_add_char :: "parser \<Rightarrow> char \<Rightarrow> error + parser" where
  "parse_add_char p c =
     (if field_limit \<le> length (p_field p) then Inl CsvError
      else Inr (p\<lparr>p_field := p_field p @ [c]\<rparr>))"

definition set_state :: "parser_state \<Rightarrow> error + parser \<Rightarrow> error + parser" where
  "set_state st r = (case r of Inl e \<Rightarrow> Inl e | Inr p \<Rightarrow> Inr (p\<lparr>p_state := st\<rparr>))"

text \<open>The end of a line is the pseudo character \<^verbatim>\<open>EOL\<close>, here \<open>None\<close>.\<close>

definition end_of_record :: "parser \<Rightarrow> char option \<Rightarrow> parser" where
  "end_of_record p c =
     (parse_save_field p)\<lparr>p_state := (if c = None then START_RECORD else EAT_CRNL)\<rparr>"

definition is_eol :: "char option \<Rightarrow> bool" where
  "is_eol c = (c = None \<or> c = Some LF \<or> c = Some CR)"

definition start_field :: "parser \<Rightarrow> char option \<Rightarrow> error + parser" where
  "start_field p c =
     (if is_eol c then Inr (end_of_record p c)
      else if c = Some DQUOTE then Inr (p\<lparr>p_state := IN_QUOTED_FIELD\<rparr>)
      else if c = Some COMMA then Inr (parse_save_field p)
      else set_state IN_FIELD (parse_add_char p (the c)))"

definition parse_process_char :: "parser \<Rightarrow> char option \<Rightarrow> error + parser" where
  "parse_process_char p c =
     (case p_state p of
        START_RECORD \<Rightarrow>
          if c = None then Inr p
          else if c = Some LF \<or> c = Some CR then Inr (p\<lparr>p_state := EAT_CRNL\<rparr>)
          else start_field (p\<lparr>p_state := START_FIELD\<rparr>) c
      | START_FIELD \<Rightarrow> start_field p c
      | IN_FIELD \<Rightarrow>
          if is_eol c then Inr (end_of_record p c)
          else if c = Some COMMA then Inr ((parse_save_field p)\<lparr>p_state := START_FIELD\<rparr>)
          else parse_add_char p (the c)
      | IN_QUOTED_FIELD \<Rightarrow>
          if c = None then Inr p
          else if c = Some DQUOTE then Inr (p\<lparr>p_state := QUOTE_IN_QUOTED_FIELD\<rparr>)
          else parse_add_char p (the c)
      | QUOTE_IN_QUOTED_FIELD \<Rightarrow>
          if c = Some DQUOTE then set_state IN_QUOTED_FIELD (parse_add_char p DQUOTE)
          else if c = Some COMMA then Inr ((parse_save_field p)\<lparr>p_state := START_FIELD\<rparr>)
          else if is_eol c then Inr (end_of_record p c)
          else set_state IN_FIELD (parse_add_char p (the c))
      | EAT_CRNL \<Rightarrow>
          if c = Some LF \<or> c = Some CR then Inr p
          else if c = None then Inr (p\<lparr>p_state := START_RECORD\<rparr>)
          else Inl CsvError)"

text \<open>One line: its characters, then \<^verbatim>\<open>EOL\<close>.\<close>

fun parse_line :: "parser \<Rightarrow> string \<Rightarrow> error + parser" where
  "parse_line p [] = parse_process_char p None"
| "parse_line p (c # cs) =
     (case parse_process_char p (Some c) of
        Inl e \<Rightarrow> Inl e
      | Inr p' \<Rightarrow> parse_line p' cs)"

text \<open>
  \<^verbatim>\<open>list(csv.reader(lines))\<close>: \<^verbatim>\<open>Reader_iternext\<close> resets the parser, then feeds lines
  until the state is \<^verbatim>\<open>START_RECORD\<close> again and returns the fields. When the lines run out
  inside a record, the pending field is saved and the record returned.
\<close>

fun reader_rows :: "parser \<Rightarrow> string list \<Rightarrow> error + string list list" where
  "reader_rows p [] =
     (if p_field p \<noteq> [] \<or> p_state p = IN_QUOTED_FIELD
      then Inr [p_fields (parse_save_field p)] else Inr [])"
| "reader_rows p (l # ls) =
     (case parse_line p l of
        Inl e \<Rightarrow> Inl e
      | Inr p' \<Rightarrow>
          if p_state p' = START_RECORD then
            (case reader_rows parse_reset ls of
               Inl e \<Rightarrow> Inl e
             | Inr rows \<Rightarrow> Inr (p_fields p' # rows))
          else reader_rows p' ls)"

definition csv_reader :: "string list \<Rightarrow> error + string list list" where
  "csv_reader ls = reader_rows parse_reset ls"

subsection \<open>Values and dictionaries\<close>

text \<open>
  The values the program handles: strings, and what \<^verbatim>\<open>csv.DictReader\<close> may add to a
  row, namely \<^verbatim>\<open>None\<close> and a list of strings. A \<^verbatim>\<open>dict\<close> is an association list, keys
  in insertion order; \<^verbatim>\<open>d[k] = v\<close> keeps the position of a key already present.
\<close>

datatype pyval = Str string | NoneVal | StrList "string list"

type_synonym entry = "(pyval \<times> pyval) list"

fun dict_set :: "pyval \<Rightarrow> pyval \<Rightarrow> entry \<Rightarrow> entry" where
  "dict_set k v [] = [(k, v)]"
| "dict_set k v ((k', v') # d) = (if k' = k then (k, v) # d else (k', v') # dict_set k v d)"

definition dict_get :: "entry \<Rightarrow> pyval \<Rightarrow> pyval \<Rightarrow> pyval" where
  "dict_get d k dflt = (case map_of d k of None \<Rightarrow> dflt | Some v \<Rightarrow> v)"

definition dict_item :: "entry \<Rightarrow> pyval \<Rightarrow> error + pyval" where
  "dict_item d k = (case map_of d k of None \<Rightarrow> Inl KeyError | Some v \<Rightarrow> Inr v)"

definition py_dict :: "(pyval \<times> pyval) list \<Rightarrow> entry" where
  "py_dict kvs = foldl (\<lambda>d (k, v). dict_set k v d) [] kvs"

subsection \<open>Text of a value\<close>

text \<open>
  The writer takes a string as it is, \<^verbatim>\<open>None\<close> as the empty string and anything else
  through \<^verbatim>\<open>str\<close>; for a list of strings that is the list display, each item as \<^verbatim>\<open>repr\<close>
  prints it.
\<close>

definition hex_digit :: "nat \<Rightarrow> char" where
  "hex_digit n = ''0123456789abcdef'' ! n"

definition printable :: "char \<Rightarrow> bool" where
  "printable c = (let n = (of_char c :: nat) in
     (32 \<le> n \<and> n < 127) \<or> (161 \<le> n \<and> n \<noteq> 173))"

definition repr_char :: "char \<Rightarrow> char \<Rightarrow> string" where
  "repr_char quote c =
     (if c = quote \<or> c = CHR 0x5C then [CHR 0x5C, c]
      else if c = CHR 0x09 then [CHR 0x5C, CHR ''t'']
      else if c = LF then [CHR 0x5C, CHR ''n'']
      else if c = CR then [CHR 0x5C, CHR ''r'']
      else if printable c then [c]
      else [CHR 0x5C, CHR ''x'', hex_digit (of_char c div 16), hex_digit (of_char c mod 16)])"

definition py_repr :: "string \<Rightarrow> string" where
  "py_repr s =
     (let quote = (if CHR 0x27 \<in> set s \<and> DQUOTE \<notin> set s then DQUOTE else CHR 0x27)
      in quote # concat (map (repr_char quote) s) @ [quote])"

fun comma_space :: "string list \<Rightarrow> string" where
  "comma_space [] = []"
| "comma_space [s] = s"
| "comma_space (s # t # ss) = s @ '', '' @ comma_space (t # ss)"

definition field_text :: "pyval \<Rightarrow> string" where
  "field_text v =
     (case v of
        Str s \<Rightarrow> s
      | NoneVal \<Rightarrow> []
      | StrList l \<Rightarrow> ''['' @ comma_space (map py_repr l) @ '']'')"

subsection \<open>DictReader and DictWriter\<close>

text \<open>
  \<^verbatim>\<open>DictReader\<close>: the first row gives the field names; every later row that is not empty
  becomes a dict. A longer row puts its surplus under the key \<^verbatim>\<open>None\<close>, a shorter row
  fills the missing keys with \<^verbatim>\<open>None\<close>.
\<close>

definition dict_of_row :: "string list \<Rightarrow> string list \<Rightarrow> entry" where
  "dict_of_row fieldnames row =
     (let d = py_dict (zip (map Str fieldnames) (map Str row));
          lf = length fieldnames;
          lr = length row
      in if lf < lr then dict_set NoneVal (StrList (drop lf row)) d
         else if lr < lf then foldl (\<lambda>d k. dict_set (Str k) NoneVal d) d (drop lr fieldnames)
         else d)"

definition DictReader :: "string list list \<Rightarrow> entry list" where
  "DictReader rows =
     (case rows of
        [] \<Rightarrow> []
      | fieldnames # rest \<Rightarrow> map (dict_of_row fieldnames) (filter (\<lambda>r. r \<noteq> []) rest))"

text \<open>
  \<^verbatim>\<open>DictWriter._dict_to_list\<close>: a key outside the field names is a \<^verbatim>\<open>ValueError\<close>, a
  missing key gives the empty string.
\<close>

definition dict_to_list :: "pyval list \<Rightarrow> entry \<Rightarrow> error + pyval list" where
  "dict_to_list fieldnames rowdict =
     (if list_ex (\<lambda>k. k \<notin> set fieldnames) (map fst rowdict) then Inl ValueError
      else Inr (map (\<lambda>k. dict_get rowdict k (Str [])) fieldnames))"

definition dict_writerow :: "pyval list \<Rightarrow> entry \<Rightarrow> error + string" where
  "dict_writerow fieldnames rowdict =
     (case dict_to_list fieldnames rowdict of
        Inl e \<Rightarrow> Inl e
      | Inr vals \<Rightarrow> Inr (writerow (map field_text vals)))"

text \<open>
  \<^verbatim>\<open>writerows\<close> writes row after row; what was written before a failing row stays in the
  file. The result is the outcome and the text written.
\<close>

fun dict_writerows :: "pyval list \<Rightarrow> entry list \<Rightarrow> (error + unit) \<times> string" where
  "dict_writerows fieldnames [] = (Inr (), [])"
| "dict_writerows fieldnames (d # ds) =
     (case dict_writerow fieldnames d of
        Inl e \<Rightarrow> (Inl e, [])
      | Inr t \<Rightarrow> (case dict_writerows fieldnames ds of (r, ts) \<Rightarrow> (r, t @ ts)))"

definition writeheader :: "pyval list \<Rightarrow> error + string" where
  "writeheader fieldnames = dict_writerow fieldnames (py_dict (zip fieldnames fieldnames))"

section \<open>Integers as text\<close>

text \<open>
  \<^verbatim>\<open>str(n)\<close> and \<^verbatim>\<open>int(s)\<close> for Python's unbounded integers. \<^verbatim>\<open>int\<close> strips white space,
  takes an optional sign and then decimal digits, single underscores allowed between
  digits. Both conversions raise \<^verbatim>\<open>ValueError\<close> on more than 4300 digits, the
  interpreter's default \<^verbatim>\<open>sys.get_int_max_str_digits()\<close>, which the program leaves as it is.
\<close>

definition digit_char :: "nat \<Rightarrow> char" where
  "digit_char d = ''0123456789'' ! d"

fun digits_of :: "nat \<Rightarrow> string" where
  "digits_of n =
     (if n < 10 then [digit_char n]
      else digits_of (n div 10) @ [digit_char (n mod 10)])"

declare digits_of.simps [simp del]

definition max_str_digits :: nat where
  "max_str_digits = 4300"

text \<open>The decimal text of an integer, and \<^verbatim>\<open>str\<close>, which gives it unless it is too long.\<close>

definition int_text :: "int \<Rightarrow> string" where
  "int_text i = (if i < 0 then CHR ''-'' # digits_of (nat (- i)) else digits_of (nat i))"

definition py_str :: "int \<Rightarrow> error + string" where
  "py_str i =
     (if max_str_digits < length (digits_of (nat \<bar>i\<bar>)) then Inl ValueError
      else Inr (int_text i))"

definition is_digit :: "char \<Rightarrow> bool" where
  "is_digit c = (48 \<le> (of_char c :: nat) \<and> (of_char c :: nat) \<le> 57)"

definition digit_val :: "char \<Rightarrow> nat" where
  "digit_val c = of_char c - 48"

definition is_space :: "char \<Rightarrow> bool" where
  "is_space c = (let n = (of_char c :: nat) in
     (9 \<le> n \<and> n \<le> 13) \<or> n = 32 \<or> n = 133 \<or> n = 160)"

definition py_strip :: "string \<Rightarrow> string" where
  "py_strip s = rev (dropWhile is_space (rev (dropWhile is_space s)))"

fun digits_value :: "nat \<Rightarrow> string \<Rightarrow> nat option" where
  "digits_value acc [] = Some acc"
| "digits_value acc [c] = (if is_digit c then Some (10 * acc + digit_val c) else None)"
| "digits_value acc (c # d # cs) =
     (if is_digit c then digits_value (10 * acc + digit_val c) (d # cs)
      else if c = CHR ''_'' \<and> is_digit d then digits_value acc (d # cs)
      else None)"

definition int_body :: "string \<Rightarrow> nat option" where
  "int_body s =
     (case s of
        [] \<Rightarrow> None
      | c # _ \<Rightarrow>
          if is_digit c \<and> length (filter is_digit s) \<le> max_str_digits
          then digits_value 0 s else None)"

definition py_int :: "string \<Rightarrow> int option" where
  "py_int s =
     (case py_strip s of
        [] \<Rightarrow> None
      | c # cs \<Rightarrow>
          if c = CHR ''-'' then map_option (\<lambda>n. - int n) (int_body cs)
          else if c = CHR ''+'' then map_option int (int_body cs)
          else map_option int (int_body (c # cs)))"

section \<open>The program\<close>

text \<open>
  The functions of \<^verbatim>\<open>src/main.py\<close>, under their names. The menu loop of \<^verbatim>\<open>main\<close> only
  reads a choice and calls one of them; it is not modelled.
\<close>

subsection \<open>State\<close>

text \<open>
  The state the program acts on: the two files (absent or with their text), the lines
  still to be typed at the prompts, and what has been printed. The printed texts are
  Russian sentences; each is represented by a constructor of \<open>printed\<close>.
\<close>

datatype prompt =
    Ask_date | Ask_type | Ask_amount | Ask_category | Ask_description
  | Ask_new_date | Ask_new_type | Ask_new_amount | Ask_new_category | Ask_new_description

datatype printed =
    File_created
  | File_exists
  | Prompt prompt
  | Entry_added
  | All_ids_heading
  | Id_line pyval
  | Current_data entry
  | Entry_updated
  | No_such_id

record world =
  data_file :: "string option"
  last_id_file :: "string option"
  stdin :: "string list"
  stdout :: "printed list"

type_synonym 'a action = "world \<Rightarrow> (error + 'a) \<times> world"

text \<open>Sequencing: an exception ends the function, the state reached so far stays.\<close>

definition and_then :: "'a action \<Rightarrow> ('a \<Rightarrow> 'b action) \<Rightarrow> 'b action" where
  "and_then m f w = (case m w of (Inl e, w') \<Rightarrow> (Inl e, w') | (Inr x, w') \<Rightarrow> f x w')"

definition result :: "error + 'a \<Rightarrow> 'a action" where
  "result r w = (r, w)"

definition py_print :: "printed \<Rightarrow> unit action" where
  "py_print x w = (Inr (), w\<lparr>stdout := stdout w @ [x]\<rparr>)"

definition py_input :: "prompt \<Rightarrow> string action" where
  "py_input pr w =
     (let w' = w\<lparr>stdout := stdout w @ [Prompt pr]\<rparr>
      in case stdin w of
           [] \<Rightarrow> (Inl EOFError, w')
         | l # ls \<Rightarrow> (Inr l, w'\<lparr>stdin := ls\<rparr>))"

subsection \<open>Storage\<close>

definition headers :: "string list" where
  "headers = [''id'', ''date'', ''type'', ''amount'', ''category'', ''description'']"

definition check_and_create_file :: "unit action" where
  "check_and_create_file w =
     (if data_file w = None
      then (Inr (), w\<lparr>stdout := stdout w @ [File_created],
                       data_file := Some (writerow headers)\<rparr>)
      else py_print File_exists w)"

definition read_data :: "entry list action" where
  "read_data w =
     (case data_file w of
        None \<Rightarrow> (Inl FileNotFoundError, w)
      | Some text \<Rightarrow>
          (case csv_reader (readlines (universal_newlines text)) of
             Inl e \<Rightarrow> (Inl e, w)
           | Inr rows \<Rightarrow> (Inr (DictReader rows), w)))"

text \<open>
  \<^verbatim>\<open>write_data\<close> opens the file for writing first, which empties it, and only then looks
  at \<^verbatim>\<open>finances[0]\<close>. Whatever was written when an exception ends the function is the
  file's text.
\<close>

definition write_data :: "entry list \<Rightarrow> unit action" where
  "write_data finances w =
     (case finances of
        [] \<Rightarrow> (Inl IndexError, w\<lparr>data_file := Some []\<rparr>)
      | first # _ \<Rightarrow>
          (let fieldnames = map fst first
           in case writeheader fieldnames of
                Inl e \<Rightarrow> (Inl e, w\<lparr>data_file := Some []\<rparr>)
              | Inr h \<Rightarrow>
                  (case dict_writerows fieldnames finances of
                     (r, t) \<Rightarrow> (r, w\<lparr>data_file := Some (h @ t)\<rparr>))))"

text \<open>\<^verbatim>\<open>save_last_id\<close> opens the file for writing, which empties it, before \<^verbatim>\<open>str\<close> runs.\<close>

definition save_last_id :: "int \<Rightarrow> unit action" where
  "save_last_id last_id w =
     (case py_str last_id of
        Inl e \<Rightarrow> (Inl e, w\<lparr>last_id_file := Some []\<rparr>)
      | Inr t \<Rightarrow> (Inr (), w\<lparr>last_id_file := Some t\<rparr>))"

definition load_last_id :: "int action" where
  "load_last_id w =
     (case last_id_file w of
        None \<Rightarrow> (Inr 1, w)
      | Some text \<Rightarrow>
          (case py_int (universal_newlines text) of
             None \<Rightarrow> (Inl ValueError, w)
           | Some n \<Rightarrow> (Inr n, w)))"

subsection \<open>Operations\<close>

definition get_next_id :: "int action" where
  "get_next_id = and_then load_last_id (\<lambda>n. result (Inr (n + 1)))"

text \<open>
  The dict literal of \<^verbatim>\<open>add_entry\<close>, given the text \<^verbatim>\<open>str(entry_id)\<close>; that conversion runs
  when the literal is built, after the answers are read.
\<close>

definition new_entry :: "string \<Rightarrow> string \<Rightarrow> string \<Rightarrow> string \<Rightarrow> string \<Rightarrow> string \<Rightarrow> entry" where
  "new_entry id_text date entry_type amount category description =
     [(Str ''id'', Str id_text),
      (Str ''date'', Str date),
      (Str ''type'', Str entry_type),
      (Str ''amount'', Str amount),
      (Str ''category'', Str category),
      (Str ''description'', Str description)]"

definition add_entry :: "unit action" where
  "add_entry =
     and_then get_next_id (\<lambda>entry_id.
     and_then (py_input Ask_date) (\<lambda>date.
     and_then (py_input Ask_type) (\<lambda>entry_type.
     and_then (py_input Ask_amount) (\<lambda>amount.
     and_then (py_input Ask_category) (\<lambda>category.
     and_then (py_input Ask_description) (\<lambda>description.
     and_then (result (py_str entry_id)) (\<lambda>id_text.
     and_then read_data (\<lambda>finances.
     and_then (write_data (finances @
                 [new_entry id_text date entry_type amount category description])) (\<lambda>_.
     and_then (save_last_id entry_id) (\<lambda>_.
     py_print Entry_added))))))))))"

text \<open>The loop of \<^verbatim>\<open>search_by_id\<close>; \<^verbatim>\<open>entry['id']\<close> raises on a dict without that key.\<close>

fun first_with_id :: "string \<Rightarrow> entry list \<Rightarrow> error + entry option" where
  "first_with_id entry_id [] = Inr None"
| "first_with_id entry_id (e # es) =
     (case dict_item e (Str ''id'') of
        Inl x \<Rightarrow> Inl x
      | Inr v \<Rightarrow> if v = Str entry_id then Inr (Some e) else first_with_id entry_id es)"

definition search_by_id :: "string \<Rightarrow> entry option action" where
  "search_by_id entry_id = and_then read_data (\<lambda>finances. result (first_with_id entry_id finances))"

fun print_ids :: "entry list \<Rightarrow> unit action" where
  "print_ids [] = result (Inr ())"
| "print_ids (e # es) =
     and_then (result (dict_item e (Str ''id''))) (\<lambda>v.
     and_then (py_print (Id_line v)) (\<lambda>_. print_ids es))"

definition show_all_ids :: "unit action" where
  "show_all_ids =
     and_then read_data (\<lambda>finances.
     and_then (py_print All_ids_heading) (\<lambda>_. print_ids finances))"

text \<open>
  \<^verbatim>\<open>entry[k] = new if new else entry[k]\<close>: a blank answer keeps the value, and reads it,
  which raises when the key is missing.
\<close>

definition set_or_keep :: "string \<Rightarrow> string \<Rightarrow> entry \<Rightarrow> error + entry" where
  "set_or_keep k new e =
     (if new \<noteq> [] then Inr (dict_set (Str k) (Str new) e)
      else (case dict_item e (Str k) of
              Inl x \<Rightarrow> Inl x
            | Inr v \<Rightarrow> Inr (dict_set (Str k) v e)))"

text \<open>The loop that puts the edited entry at the first position holding the id.\<close>

fun replace_first :: "string \<Rightarrow> entry \<Rightarrow> entry list \<Rightarrow> error + entry list" where
  "replace_first entry_id entry [] = Inr []"
| "replace_first entry_id entry (e # es) =
     (case dict_item e (Str ''id'') of
        Inl x \<Rightarrow> Inl x
      | Inr v \<Rightarrow>
          if v = Str entry_id then Inr (entry # es)
          else (case replace_first entry_id entry es of
                  Inl x \<Rightarrow> Inl x
                | Inr es' \<Rightarrow> Inr (e # es')))"

definition ask_field :: "prompt \<Rightarrow> string \<Rightarrow> entry \<Rightarrow> entry action" where
  "ask_field pr k entry = and_then (py_input pr) (\<lambda>new. result (set_or_keep k new entry))"

definition not_found :: "unit action" where
  "not_found = and_then (py_print No_such_id) (\<lambda>_. show_all_ids)"

definition edit_entry :: "string \<Rightarrow> unit action" where
  "edit_entry entry_id =
     and_then read_data (\<lambda>finances.
     and_then (search_by_id entry_id) (\<lambda>found.
       case found of
         None \<Rightarrow> not_found
       | Some entry \<Rightarrow>
           if entry = [] then not_found
           else
             and_then (py_print (Current_data entry)) (\<lambda>_.
             and_then (ask_field Ask_new_date ''date'' entry) (\<lambda>entry.
             and_then (ask_field Ask_new_type ''type'' entry) (\<lambda>entry.
             and_then (ask_field Ask_new_amount ''amount'' entry) (\<lambda>entry.
             and_then (ask_field Ask_new_category ''category'' entry) (\<lambda>entry.
             and_then (ask_field Ask_new_description ''description'' entry) (\<lambda>entry.
             and_then (result (replace_first entry_id entry finances)) (\<lambda>finances.
             and_then (write_data finances) (\<lambda>_.
             py_print Entry_updated))))))))))"

section \<open>Notions used in the statements\<close>

text \<open>
  A record of the store: a dict with the six keys of the header, in that order, every
  value a string. Both the dict literal of \<^verbatim>\<open>add_entry\<close> and the dicts \<^verbatim>\<open>DictReader\<close>
  builds from a six-column row have this shape.
\<close>

fun is_str :: "pyval \<Rightarrow> bool" where
  "is_str (Str s) = True"
| "is_str v = False"

definition is_record :: "entry \<Rightarrow> bool" where
  "is_record e = (map fst e = map Str headers \<and> list_all is_str (map snd e))"

text \<open>The record holding the given six strings.\<close>

definition entry_of :: "string list \<Rightarrow> entry" where
  "entry_of vals = zip (map Str headers) (map Str vals)"

text \<open>The text \<^verbatim>\<open>write_data\<close> produces for a sequence of records: the header line, then
  one line for each record.\<close>

definition record_row :: "entry \<Rightarrow> string list" where
  "record_row e = map (\<lambda>v. field_text (snd v)) e"

definition store_text :: "entry list \<Rightarrow> string" where
  "store_text rs = writerow headers @ concat (map (\<lambda>e. writerow (record_row e)) rs)"

text \<open>A record as it comes back from the file: every value with its newlines translated.\<close>

fun nl_val :: "pyval \<Rightarrow> pyval" where
  "nl_val (Str s) = Str (universal_newlines s)"
| "nl_val v = v"

definition nl_entry :: "entry \<Rightarrow> entry" where
  "nl_entry e = map (\<lambda>kv. (fst kv, nl_val (snd kv))) e"

text \<open>
  A text the reader takes back as one field: within \<open>field_limit\<close> once its newlines are
  translated. A record is loadable when each of its values is.
\<close>

definition fits :: "string \<Rightarrow> bool" where
  "fits s = (length (universal_newlines s) \<le> field_limit)"

definition loadable :: "entry \<Rightarrow> bool" where
  "loadable e = list_all fits (record_row e)"

text \<open>\<^verbatim>\<open>add_entry\<close> called \<open>n\<close> times in a row, as the menu loop does on \<open>n\<close> choices of 1.\<close>

fun repeat_add :: "nat \<Rightarrow> unit action" where
  "repeat_add 0 = result (Inr ())"
| "repeat_add (Suc n) = and_then add_entry (\<lambda>_. repeat_add n)"

text \<open>The value an edit leaves in a field: the answer, or the old value on a blank answer.\<close>

definition override :: "string \<Rightarrow> pyval \<Rightarrow> pyval" where
  "override new old = (if new = [] then old else Str new)"

text \<open>
  The record an edit is meant to leave: the id as it was, every other field overridden by
  its answer.
\<close>

definition edited :: "entry \<Rightarrow> string \<Rightarrow> string \<Rightarrow> string \<Rightarrow> string \<Rightarrow> string \<Rightarrow> entry" where
  "edited e new_date new_type new_amount new_category new_description =
     [(Str ''id'', dict_get e (Str ''id'') NoneVal),
      (Str ''date'', override new_date (dict_get e (Str ''date'') NoneVal)),
      (Str ''type'', override new_type (dict_get e (Str ''type'') NoneVal)),
      (Str ''amount'', override new_amount (dict_get e (Str ''amount'') NoneVal)),
      (Str ''category'', override new_category (dict_get e (Str ''category'') NoneVal)),
      (Str ''description'', override new_description (dict_get e (Str ''description'') NoneVal))]"

definition has_id :: "string \<Rightarrow> entry \<Rightarrow> bool" where
  "has_id entry_id e = (dict_item e (Str ''id'') = Inr (Str entry_id))"

text \<open>
  The records a run of adds leaves in the store, as they load: the counter being \<open>n\<close>, each
  five answers make one record, numbered from \<open>n + 1\<close> on.
\<close>

fun added_records :: "int \<Rightarrow> string list \<Rightarrow> entry list" where
  "added_records n (d # t # a # c # ds # rest) =
     nl_entry (new_entry (int_text (n + 1)) d t a c ds) # added_records (n + 1) rest"
| "added_records n rest = []"

text \<open>A small store for the examples: three records, the id 2 used twice.\<close>

definition example_records :: "entry list" where
  "example_records =
     [new_entry ''2'' ''2024-01-01'' ''income'' ''100'' ''salary'' ''Jan'',
      new_entry ''3'' ''2024-02-01'' ''expense'' ''40'' ''food'' ''lunch'',
      new_entry ''2'' ''2024-03-01'' ''income'' ''7'' ''misc'' ''again'']"

definition example_world :: world where
  "example_world =
     \<lparr>data_file = Some (store_text example_records),
      last_id_file = Some ''3'',
      stdin = [[], [], ''150'', [], [], ''x''],
      stdout = []\<rparr>"

definition fresh_world :: world where
  "fresh_world =
     \<lparr>data_file = Some (writerow headers),
      last_id_file = None,
      stdin = [''2024-01-01'', ''income'', ''100'', ''salary'', ''Jan'',
               ''2024-02-01'', ''expense'', ''40'', ''food'', ''lunch''],
      stdout = []\<rparr>"

text \<open>
  A base-10 integer as the counter file is meant to hold it: an optional minus sign and
  one or more decimal digits, read most significant digit first.
\<close>

definition decimal :: "string \<Rightarrow> nat option" where
  "decimal ds =
     (if ds \<noteq> [] \<and> list_all is_digit ds
      then Some (foldl (\<lambda>a c. 10 * a + digit_val c) 0 ds) else None)"

definition base10 :: "string \<Rightarrow> int option" where
  "base10 s =
     (case s of
        [] \<Rightarrow> None
      | c # cs \<Rightarrow>
          if c = CHR ''-'' then map_option (\<lambda>n. - int n) (decimal cs)
          else map_option int (decimal s))"

subsection \<open>The reader on a stream of characters\<close>

text \<open>
  For the proofs the reader is restated on the text itself: \<^verbatim>\<open>EOL\<close> follows every
  \<^verbatim>\<open>\n\<close>. On a text that is empty or ends with \<^verbatim>\<open>\n\<close> this is \<open>reader_rows\<close> on its
  lines (lemma \<open>reader_rows_readlines\<close>).
\<close>

fun feed :: "parser \<Rightarrow> string \<Rightarrow> error + string list list" where
  "feed p [] = reader_rows p []"
| "feed p (c # cs) =
     (case parse_process_char p (Some c) of
        Inl e \<Rightarrow> Inl e
      | Inr p1 \<Rightarrow>
          if c = LF then
            (case parse_process_char p1 None of
               Inl e \<Rightarrow> Inl e
             | Inr p2 \<Rightarrow>
                 if p_state p2 = START_RECORD then
                   (case feed parse_reset cs of
                      Inl e \<Rightarrow> Inl e
                    | Inr rows \<Rightarrow> Inr (p_fields p2 # rows))
                 else feed p2 cs)
          else feed p1 cs)"

text \<open>
  The rows followed through the reader have two or more fields, each within the limit.
  Then a field and a row as the reader sees them, after the translation of newlines.
\<close>

definition row_ok :: "string list \<Rightarrow> bool" where
  "row_ok r = (2 \<le> length r \<and> list_all fits r)"

definition enc_field :: "string \<Rightarrow> string" where
  "enc_field f =
     (if needs_quote f then DQUOTE # double_quotes (universal_newlines f) @ [DQUOTE] else f)"

fun enc_row :: "string list \<Rightarrow> string" where
  "enc_row [] = []"
| "enc_row [f] = enc_field f"
| "enc_row (f # g # fs) = enc_field f @ COMMA # enc_row (g # fs)"

text \<open>What the parser holds has no carriage return and is within the limit.\<close>

definition field_ok :: "string \<Rightarrow> bool" where
  "field_ok f = (CR \<notin> set f \<and> length f \<le> field_limit)"

definition parser_ok :: "parser \<Rightarrow> bool" where
  "parser_ok p = (field_ok (p_field p) \<and> list_all field_ok (p_fields p))"

text \<open>An answer and a number, each one character beyond its limit, and a world where the
  answer is typed first.\<close>

definition oversize_answer :: string where
  "oversize_answer = replicate 131073 (CHR ''a'')"

definition long_number :: string where
  "long_number = replicate 4301 (CHR ''1'')"

definition oversize_world :: world where
  "oversize_world =
     \<lparr>data_file = Some (writerow headers),
      last_id_file = None,
      stdin = [oversize_answer, [], [], [], [], [], [], [], [], []],
      stdout = []\<rparr>"

abbreviation (input) at_field :: "string list \<Rightarrow> parser" where
  "at_field acc \<equiv> \<lparr>p_state = START_FIELD, p_field = [], p_fields = acc\<rparr>"

section \<open>Lemmas\<close>

subsection \<open>Translation of newlines\<close>

lemma un_Cons_other [simp]: "c \<noteq> CR \<Longrightarrow> universal_newlines (c # cs) = c # universal_newlines cs"
  by (cases cs) auto

lemma un_CR_LF [simp]: "universal_newlines (CR # LF # cs) = LF # universal_newlines cs"
  by simp

lemma un_append_left: "xs = [] \<or> last xs \<noteq> CR \<Longrightarrow> universal_newlines (xs @ ys) = universal_newlines xs @ universal_newlines ys"
proof (induction xs rule: universal_newlines.induct)
  case 1 then show ?case by simp
next
  case (2 c) then show ?case by simp
next
  case (3 c d cs)
  then show ?case by (auto split: if_splits)
qed

lemma un_append_right: "ys = [] \<or> hd ys \<noteq> LF \<Longrightarrow> universal_newlines (xs @ ys) = universal_newlines xs @ universal_newlines ys"
proof (induction xs rule: universal_newlines.induct)
  case 1 then show ?case by simp
next
  case (2 c) then show ?case by (cases ys) auto
next
  case (3 c d cs)
  then show ?case by (auto split: if_splits)
qed

lemma un_no_CR: "CR \<notin> set (universal_newlines s)"
  by (induction s rule: universal_newlines.induct) auto

lemma un_id: "CR \<notin> set s \<Longrightarrow> universal_newlines s = s"
  by (induction s rule: universal_newlines.induct) auto

lemma un_idem [simp]: "universal_newlines (universal_newlines s) = universal_newlines s"
  by (simp add: un_id un_no_CR)

lemma length_un: "length (universal_newlines s) \<le> length s"
  by (induction s rule: universal_newlines.induct) auto

lemma un_double_quotes: "universal_newlines (double_quotes s) = double_quotes (universal_newlines s)"
  by (induction s rule: universal_newlines.induct) auto

subsection \<open>The reader inside a quoted field\<close>

lemma pc_quoted_char:
  "p_state p = IN_QUOTED_FIELD \<Longrightarrow> c \<noteq> DQUOTE \<Longrightarrow> length (p_field p) < field_limit \<Longrightarrow>
   parse_process_char p (Some c) = Inr (p\<lparr>p_field := p_field p @ [c]\<rparr>)"
  by (simp add: parse_process_char_def parse_add_char_def)

lemma pc_quoted_quote:
  "p_state p = IN_QUOTED_FIELD \<Longrightarrow> parse_process_char p (Some DQUOTE) = Inr (p\<lparr>p_state := QUOTE_IN_QUOTED_FIELD\<rparr>)"
  by (simp add: parse_process_char_def)

lemma pc_quoted_eol:
  "p_state p = IN_QUOTED_FIELD \<Longrightarrow> parse_process_char p None = Inr p"
  by (simp add: parse_process_char_def)

lemma pc_qq_quote:
  "p_state p = QUOTE_IN_QUOTED_FIELD \<Longrightarrow> length (p_field p) < field_limit \<Longrightarrow>
   parse_process_char p (Some DQUOTE) = Inr (p\<lparr>p_field := p_field p @ [DQUOTE], p_state := IN_QUOTED_FIELD\<rparr>)"
  by (simp add: parse_process_char_def parse_add_char_def set_state_def)

lemma state_same: "p_state p = s \<Longrightarrow> p\<lparr>p_field := f, p_state := s\<rparr> = p\<lparr>p_field := f\<rparr>"
  by (cases p) simp

lemma feed_quoted_body:
  "p_state p = IN_QUOTED_FIELD \<Longrightarrow> length (p_field p) + length g \<le> field_limit \<Longrightarrow>
   feed p (double_quotes g @ rest) = feed (p\<lparr>p_field := p_field p @ g\<rparr>) rest"
proof (induction g arbitrary: p)
  case Nil
  then show ?case by simp
next
  case (Cons c g)
  let ?p' = "p\<lparr>p_field := p_field p @ [c]\<rparr>"
  have len: "length (p_field p) < field_limit" using Cons.prems by simp
  have st: "p_state ?p' = IN_QUOTED_FIELD" using Cons.prems by simp
  have ln: "length (p_field ?p') + length g \<le> field_limit" using Cons.prems by simp
  have IH: "feed ?p' (double_quotes g @ rest) = feed (p\<lparr>p_field := p_field p @ c # g\<rparr>) rest"
    using Cons.IH [OF st ln] by simp
  show ?case
  proof (cases "c = DQUOTE")
    case True
    have "feed p (double_quotes (c # g) @ rest) = feed ?p' (double_quotes g @ rest)"
      using True Cons.prems(1) len
      by (simp add: pc_quoted_quote pc_qq_quote state_same)
    then show ?thesis using IH by simp
  next
    case False
    have "feed p (double_quotes (c # g) @ rest) = feed ?p' (double_quotes g @ rest)"
      using False Cons.prems(1) len st
      by (simp add: pc_quoted_char pc_quoted_eol)
    then show ?thesis using IH by simp
  qed
qed

subsection \<open>The reader on a field and on a row\<close>

lemma field_limit_pos: "0 < field_limit"
  by (simp add: field_limit_def)

lemma feed_plain_body:
  "p_state p = IN_FIELD \<Longrightarrow> \<not> needs_quote g \<Longrightarrow> length (p_field p) + length g \<le> field_limit \<Longrightarrow>
   feed p (g @ rest) = feed (p\<lparr>p_field := p_field p @ g\<rparr>) rest"
proof (induction g arbitrary: p)
  case Nil
  then show ?case by simp
next
  case (Cons c g)
  let ?p' = "p\<lparr>p_field := p_field p @ [c]\<rparr>"
  have c: "c \<noteq> LF" "c \<noteq> CR" "c \<noteq> COMMA" and g: "\<not> needs_quote g"
    using Cons.prems(2) by (auto simp: needs_quote_def special_char_def)
  have len: "length (p_field p) < field_limit" using Cons.prems by simp
  have "parse_process_char p (Some c) = Inr ?p'"
    using c Cons.prems(1) len by (simp add: parse_process_char_def is_eol_def parse_add_char_def)
  then have "feed p ((c # g) @ rest) = feed ?p' (g @ rest)"
    using c by simp
  also have "\<dots> = feed (?p'\<lparr>p_field := p_field ?p' @ g\<rparr>) rest"
    using Cons.prems g by (intro Cons.IH) auto
  finally show ?case by simp
qed

lemma feed_end_record:
  assumes "parse_process_char p (Some LF) = Inr (end_of_record p (Some LF))"
  shows "feed p (LF # rest) =
         (case feed parse_reset rest of Inl e \<Rightarrow> Inl e | Inr rows \<Rightarrow> Inr ((p_fields p @ [p_field p]) # rows))"
proof -
  let ?q = "end_of_record p (Some LF)"
  have "parse_process_char ?q None = Inr (?q\<lparr>p_state := START_RECORD\<rparr>)"
    by (simp add: parse_process_char_def end_of_record_def parse_save_field_def)
  then show ?thesis
    by (simp add: assms end_of_record_def parse_save_field_def split: sum.splits)
qed

lemma feed_field_comma:
  assumes "fits f"
  shows "feed (at_field acc) (enc_field f @ COMMA # rest) = feed (at_field (acc @ [universal_newlines f])) rest"
proof (cases "needs_quote f")
  case True
  let ?q = "\<lparr>p_state = IN_QUOTED_FIELD, p_field = [], p_fields = acc\<rparr>"
  let ?g = "universal_newlines f"
  have "feed (at_field acc) (enc_field f @ COMMA # rest) = feed ?q (double_quotes ?g @ DQUOTE # COMMA # rest)"
    using True by (simp add: enc_field_def parse_process_char_def start_field_def is_eol_def)
  also have "\<dots> = feed (?q\<lparr>p_field := p_field ?q @ ?g\<rparr>) (DQUOTE # COMMA # rest)"
    using assms by (intro feed_quoted_body) (auto simp: fits_def)
  also have "\<dots> = feed (at_field (acc @ [?g])) rest"
    by (simp add: parse_process_char_def parse_save_field_def is_eol_def)
  finally show ?thesis .
next
  case False
  then have id: "universal_newlines f = f"
    by (intro un_id) (auto simp: needs_quote_def special_char_def list_ex_iff)
  show ?thesis
  proof (cases f)
    case Nil
    then show ?thesis
      using False by (simp add: enc_field_def parse_process_char_def start_field_def is_eol_def parse_save_field_def)
  next
    case (Cons c g)
    have c: "c \<noteq> LF" "c \<noteq> CR" "c \<noteq> COMMA" "c \<noteq> DQUOTE" and g: "\<not> needs_quote g"
      using False Cons by (auto simp: needs_quote_def special_char_def)
    let ?q = "\<lparr>p_state = IN_FIELD, p_field = [c], p_fields = acc\<rparr>"
    have "feed (at_field acc) (enc_field f @ COMMA # rest) = feed ?q (g @ COMMA # rest)"
      using False Cons c field_limit_pos
      by (simp add: enc_field_def parse_process_char_def start_field_def is_eol_def parse_add_char_def set_state_def)
    also have "\<dots> = feed (?q\<lparr>p_field := p_field ?q @ g\<rparr>) (COMMA # rest)"
      using assms g id Cons by (intro feed_plain_body) (auto simp: fits_def)
    also have "\<dots> = feed (at_field (acc @ [f])) rest"
      using Cons by (simp add: parse_process_char_def parse_save_field_def is_eol_def)
    finally show ?thesis using id by (simp split: sum.splits)
  qed
qed

lemma feed_field_LF:
  assumes "fits f"
  shows "feed (at_field acc) (enc_field f @ LF # rest) =
         (case feed parse_reset rest of Inl e \<Rightarrow> Inl e | Inr rows \<Rightarrow> Inr ((acc @ [universal_newlines f]) # rows))"
proof (cases "needs_quote f")
  case True
  let ?q = "\<lparr>p_state = IN_QUOTED_FIELD, p_field = [], p_fields = acc\<rparr>"
  let ?g = "universal_newlines f"
  have "feed (at_field acc) (enc_field f @ LF # rest) = feed ?q (double_quotes ?g @ DQUOTE # LF # rest)"
    using True by (simp add: enc_field_def parse_process_char_def start_field_def is_eol_def)
  also have "\<dots> = feed (?q\<lparr>p_field := p_field ?q @ ?g\<rparr>) (DQUOTE # LF # rest)"
    using assms by (intro feed_quoted_body) (auto simp: fits_def)
  also have "\<dots> = feed \<lparr>p_state = QUOTE_IN_QUOTED_FIELD, p_field = ?g, p_fields = acc\<rparr> (LF # rest)"
    by (simp add: parse_process_char_def)
  also have "\<dots> = (case feed parse_reset rest of Inl e \<Rightarrow> Inl e | Inr rows \<Rightarrow> Inr ((acc @ [?g]) # rows))"
    by (subst feed_end_record) (simp_all add: parse_process_char_def is_eol_def split: sum.splits)
  finally show ?thesis .
next
  case False
  then have id: "universal_newlines f = f"
    by (intro un_id) (auto simp: needs_quote_def special_char_def list_ex_iff)
  show ?thesis
  proof (cases f)
    case Nil
    have "feed (at_field acc) (LF # rest) =
          (case feed parse_reset rest of Inl e \<Rightarrow> Inl e | Inr rows \<Rightarrow> Inr ((acc @ [[]]) # rows))"
      by (subst feed_end_record) (simp_all add: parse_process_char_def start_field_def is_eol_def split: sum.splits)
    then show ?thesis
      using False Nil by (simp add: enc_field_def del: feed.simps split: sum.splits)
  next
    case (Cons c g)
    have c: "c \<noteq> LF" "c \<noteq> CR" "c \<noteq> COMMA" "c \<noteq> DQUOTE" and g: "\<not> needs_quote g"
      using False Cons by (auto simp: needs_quote_def special_char_def)
    let ?q = "\<lparr>p_state = IN_FIELD, p_field = [c], p_fields = acc\<rparr>"
    have "feed (at_field acc) (enc_field f @ LF # rest) = feed ?q (g @ LF # rest)"
      using False Cons c field_limit_pos
      by (simp add: enc_field_def parse_process_char_def start_field_def is_eol_def parse_add_char_def set_state_def)
    also have "\<dots> = feed (?q\<lparr>p_field := p_field ?q @ g\<rparr>) (LF # rest)"
      using assms g id Cons by (intro feed_plain_body) (auto simp: fits_def)
    also have "\<dots> = (case feed parse_reset rest of Inl e \<Rightarrow> Inl e | Inr rows \<Rightarrow> Inr ((acc @ [f]) # rows))"
      using Cons by (subst feed_end_record) (simp_all add: parse_process_char_def is_eol_def split: sum.splits)
    finally show ?thesis using id by (simp split: sum.splits)
  qed
qed

lemma feed_row:
  "list_all fits (f # fs) \<Longrightarrow>
   feed (at_field acc) (enc_row (f # fs) @ LF # rest) =
   (case feed parse_reset rest of Inl e \<Rightarrow> Inl e
    | Inr rows \<Rightarrow> Inr ((acc @ map universal_newlines (f # fs)) # rows))"
proof (induction fs arbitrary: f acc)
  case Nil
  then show ?case by (simp add: feed_field_LF split: sum.splits)
next
  case (Cons g fs)
  have "feed (at_field acc) (enc_row (f # g # fs) @ LF # rest)
        = feed (at_field (acc @ [universal_newlines f])) (enc_row (g # fs) @ LF # rest)"
    using Cons.prems by (simp add: feed_field_comma)
  then show ?case using Cons.IH [of g "acc @ [universal_newlines f]"] Cons.prems by (simp split: sum.splits)
qed

subsection \<open>Reading back what the writer wrote\<close>

lemma reader_rows_char:
  "reader_rows p ((c # l) # ls) =
   (case parse_process_char p (Some c) of Inl e \<Rightarrow> Inl e | Inr p1 \<Rightarrow> reader_rows p1 (l # ls))"
  by (simp split: sum.splits)

lemma reader_rows_readlines:
  "cs = [] \<or> last cs = LF \<Longrightarrow> reader_rows p (readlines cs) = feed p cs"
proof (induction cs arbitrary: p)
  case Nil
  then show ?case by simp
next
  case (Cons c cs)
  show ?case
  proof (cases "c = LF")
    case True
    have "cs = [] \<or> last cs = LF" using Cons.prems by (auto split: if_splits)
    then have IH: "\<And>q. reader_rows q (readlines cs) = feed q cs" by (rule Cons.IH)
    show ?thesis using True by (simp add: IH split: sum.splits)
  next
    case False
    then have ne: "cs \<noteq> []" and l: "last cs = LF" using Cons.prems by (auto split: if_splits)
    then have IH: "\<And>q. reader_rows q (readlines cs) = feed q cs" by (intro Cons.IH) simp
    have "readlines cs \<noteq> []"
      using ne by (cases cs) (auto split: list.splits)
    then obtain l ls where rl: "readlines cs = l # ls"
      by (cases "readlines cs") auto
    have eq: "reader_rows p (readlines (c # cs)) =
          (case parse_process_char p (Some c) of Inl e \<Rightarrow> Inl e | Inr p1 \<Rightarrow> reader_rows p1 (readlines cs))"
      using False rl by (simp only: readlines.simps if_False list.case reader_rows_char)
    show ?thesis unfolding eq using False by (simp add: IH split: sum.splits)
  qed
qed

lemma feed_start:
  "c \<noteq> LF \<Longrightarrow> c \<noteq> CR \<Longrightarrow> feed parse_reset (c # cs) = feed (at_field []) (c # cs)"
  by (simp add: parse_reset_def parse_process_char_def)

lemma enc_field_hd:
  "enc_field f @ COMMA # rest = c # cs \<Longrightarrow> c \<noteq> LF \<and> c \<noteq> CR"
  by (cases f) (auto simp: enc_field_def needs_quote_def special_char_def split: if_splits)

lemma enc_row_hd:
  assumes "2 \<le> length fs"
  shows "\<exists>c cs. enc_row fs @ rest = c # cs \<and> c \<noteq> LF \<and> c \<noteq> CR"
proof -
  obtain f g gs where fs: "fs = f # g # gs"
    using assms by (cases fs; cases "tl fs") auto
  obtain c cs where e: "enc_field f @ COMMA # (enc_row (g # gs) @ rest) = c # cs"
    by (cases "enc_field f") auto
  then show ?thesis using enc_field_hd [OF e] fs by auto
qed

lemma join_append_un:
  "universal_newlines (join_append f) = enc_field f \<and> (join_append f = [] \<or> last (join_append f) \<noteq> CR)"
proof (cases "needs_quote f")
  case True
  have "universal_newlines (double_quotes f @ [DQUOTE]) = double_quotes (universal_newlines f) @ [DQUOTE]"
    by (simp add: un_append_right un_double_quotes)
  then show ?thesis using True by (simp add: join_append_def enc_field_def)
next
  case False
  then have no: "CR \<notin> set f" by (auto simp: needs_quote_def special_char_def list_ex_iff)
  then have "f = [] \<or> last f \<noteq> CR" by (cases "f = []") (auto dest: last_in_set)
  then show ?thesis using False no by (simp add: join_append_def enc_field_def un_id)
qed

lemma join_fields_un:
  "universal_newlines (join_fields fs) = enc_row fs \<and> (join_fields fs = [] \<or> last (join_fields fs) \<noteq> CR)"
proof (induction fs rule: join_fields.induct)
  case 1
  then show ?case by simp
next
  case (2 f)
  then show ?case using join_append_un [of f] by simp
next
  case (3 f g fs)
  have "universal_newlines (join_append f @ COMMA # join_fields (g # fs))
        = universal_newlines (join_append f) @ universal_newlines (COMMA # join_fields (g # fs))"
    by (rule un_append_right) simp
  then show ?case using 3 join_append_un [of f] by auto
qed

lemma writerow_un:
  assumes "2 \<le> length fs"
  shows "universal_newlines (writerow fs @ rest) = enc_row fs @ LF # universal_newlines rest"
proof -
  have ne: "fs \<noteq> [[]]" using assms by auto
  have "universal_newlines (join_fields fs @ CR # LF # rest)
        = universal_newlines (join_fields fs) @ universal_newlines (CR # LF # rest)"
    using join_fields_un [of fs] by (intro un_append_left) simp
  then show ?thesis using ne join_fields_un [of fs] by (simp add: writerow_def)
qed

lemma rows_text_end:
  "list_all (\<lambda>r. 2 \<le> length r) rows \<Longrightarrow>
   universal_newlines (concat (map writerow rows)) = [] \<or> last (universal_newlines (concat (map writerow rows))) = LF"
proof (induction rows)
  case Nil
  then show ?case by simp
next
  case (Cons r rows)
  then have "2 \<le> length r" by simp
  from writerow_un [OF this] Cons show ?case by auto
qed

lemma feed_rows:
  "list_all row_ok rows \<Longrightarrow>
   feed parse_reset (universal_newlines (concat (map writerow rows))) = Inr (map (map universal_newlines) rows)"
proof (induction rows)
  case Nil
  then show ?case by (simp add: parse_reset_def)
next
  case (Cons r rows)
  then have "row_ok r" and rows: "list_all row_ok rows"
    by simp_all
  then have r: "2 \<le> length r" "list_all fits r"
    by (simp_all add: row_ok_def)
  let ?rest = "universal_newlines (concat (map writerow rows))"
  have tx: "universal_newlines (concat (map writerow (r # rows))) = enc_row r @ LF # ?rest"
    using writerow_un [OF r(1)] by simp
  obtain c cs where hd: "enc_row r @ LF # ?rest = c # cs" "c \<noteq> LF" "c \<noteq> CR"
    using enc_row_hd [OF r(1)] by blast
  obtain f fs where rf: "r = f # fs" using r(1) by (cases r) auto
  have "feed parse_reset (enc_row r @ LF # ?rest) = feed (at_field []) (enc_row r @ LF # ?rest)"
    unfolding hd(1) using hd(2,3) by (rule feed_start)
  also have "\<dots> = (case feed parse_reset ?rest of Inl e \<Rightarrow> Inl e
                    | Inr rs \<Rightarrow> Inr (([] @ map universal_newlines (f # fs)) # rs))"
    unfolding rf using r(2) rf by (intro feed_row) simp
  finally show ?case using Cons.IH [OF rows] tx rf by simp
qed

lemma csv_roundtrip:
  assumes "list_all row_ok rows"
  shows "csv_reader (readlines (universal_newlines (concat (map writerow rows)))) = Inr (map (map universal_newlines) rows)"
proof -
  have "list_all (\<lambda>r. 2 \<le> length r) rows" using assms by (simp add: list_all_iff row_ok_def)
  from reader_rows_readlines [OF rows_text_end [OF this]] feed_rows [OF assms]
  show ?thesis by (simp add: csv_reader_def)
qed

subsection \<open>Dicts, records and the store file\<close>

lemma dict_set_fresh: "k \<notin> fst ` set d \<Longrightarrow> dict_set k v d = d @ [(k, v)]"
  by (induction d) auto

lemma foldl_dict_set:
  "distinct (map fst kvs) \<Longrightarrow> fst ` set d \<inter> fst ` set kvs = {} \<Longrightarrow>
   foldl (\<lambda>d (k, v). dict_set k v d) d kvs = d @ kvs"
proof (induction kvs arbitrary: d)
  case Nil
  then show ?case by simp
next
  case (Cons kv kvs)
  obtain k v where kv: "kv = (k, v)" by (cases kv)
  have fresh: "k \<notin> fst ` set d" using Cons.prems(2) kv by auto
  have "foldl (\<lambda>d (k, v). dict_set k v d) (d @ [(k, v)]) kvs = (d @ [(k, v)]) @ kvs"
    using Cons.prems kv by (intro Cons.IH) (auto simp: image_Un)
  then show ?case using kv fresh by (simp add: dict_set_fresh)
qed

lemma py_dict_distinct: "distinct (map fst kvs) \<Longrightarrow> py_dict kvs = kvs"
  using foldl_dict_set [of kvs "[]"] by (simp add: py_dict_def)

lemma headers_distinct: "distinct (map Str headers)"
  by (simp add: headers_def)

lemma length_headers: "length headers = 6"
  by (simp add: headers_def)

lemma dict_of_row_headers: "length row = 6 \<Longrightarrow> dict_of_row headers row = entry_of row"
proof -
  assume l: "length row = 6"
  have "map fst (zip (map Str headers) (map Str row)) = map Str headers"
    using l by (simp add: length_headers)
  then have "distinct (map fst (zip (map Str headers) (map Str row)))"
    using headers_distinct by simp
  then show ?thesis
    using l by (simp add: dict_of_row_def entry_of_def py_dict_distinct length_headers Let_def)
qed

lemma is_strD: "is_str v \<Longrightarrow> Str (field_text v) = v"
  by (cases v) (auto simp: field_text_def)

lemma is_record_length: "is_record e \<Longrightarrow> length e = 6"
proof -
  assume "is_record e"
  then have "length (map fst e) = length (map Str headers)" by (simp add: is_record_def)
  then show ?thesis by (simp add: length_headers)
qed

lemma record_row_length: "is_record e \<Longrightarrow> length (record_row e) = 6"
  by (simp add: record_row_def is_record_length)

lemma is_record_entry_of: "is_record e \<Longrightarrow> entry_of (record_row e) = e"
proof -
  assume r: "is_record e"
  have vals: "map Str (record_row e) = map snd e"
    using r by (auto simp: is_record_def record_row_def list_all_iff is_strD)
  have "zip (map fst e) (map snd e) = e" by (rule zip_map_fst_snd)
  then show ?thesis using r vals by (simp add: entry_of_def is_record_def)
qed

lemma entry_of_is_record: "length vals = 6 \<Longrightarrow> is_record (entry_of vals)"
  by (simp add: is_record_def entry_of_def length_headers list_all_iff)

lemma record_row_entry_of: "length vals = 6 \<Longrightarrow> record_row (entry_of vals) = vals"
proof -
  assume l: "length vals = 6"
  have "record_row (entry_of vals) = map (\<lambda>v. field_text v) (map snd (zip (map Str headers) (map Str vals)))"
    by (simp add: record_row_def entry_of_def)
  also have "\<dots> = map field_text (map Str vals)" using l by (simp add: length_headers)
  also have "\<dots> = vals" by (simp add: field_text_def comp_def)
  finally show ?thesis .
qed

lemma nl_entry_of: "nl_entry (entry_of vals) = entry_of (map universal_newlines vals)"
  by (simp add: nl_entry_def entry_of_def zip_map2 zip_map1 case_prod_unfold comp_def)

lemma nl_entry_record: "is_record e \<Longrightarrow> nl_entry e = entry_of (map universal_newlines (record_row e))"
  using nl_entry_of [of "record_row e"] by (simp add: is_record_entry_of)

lemma dict_get_keys:
  "distinct (map fst e) \<Longrightarrow> map (\<lambda>k. dict_get e k d) (map fst e) = map snd e"
proof -
  assume d: "distinct (map fst e)"
  have "\<And>kv. kv \<in> set e \<Longrightarrow> dict_get e (fst kv) d = snd kv"
    using d by (auto simp: dict_get_def)
  then show ?thesis by simp
qed

lemma dict_writerow_record:
  assumes "is_record e"
  shows "dict_writerow (map Str headers) e = Inr (writerow (record_row e))"
proof -
  have k: "map fst e = map Str headers" using assms by (simp add: is_record_def)
  have d: "distinct (map fst e)" using k headers_distinct by simp
  have "map (\<lambda>k. dict_get e k (Str [])) (map fst e) = map snd e" using d by (rule dict_get_keys)
  then have v: "map (\<lambda>k. dict_get e k (Str [])) (map Str headers) = map snd e" using k by simp
  have nx: "\<not> list_ex (\<lambda>k. k \<notin> set (map Str headers)) (map fst e)"
    unfolding k by (simp add: list_ex_iff)
  show ?thesis
    unfolding dict_writerow_def dict_to_list_def using nx v by (simp add: record_row_def comp_def)
qed

lemma dict_writerows_records:
  "list_all is_record rs \<Longrightarrow>
   dict_writerows (map Str headers) rs = (Inr (), concat (map (\<lambda>e. writerow (record_row e)) rs))"
  by (induction rs) (simp_all add: dict_writerow_record)

lemma writeheader_headers: "writeheader (map Str headers) = Inr (writerow headers)"
proof -
  have e: "is_record (zip (map Str headers) (map Str headers))"
    using entry_of_is_record [of headers] by (simp add: entry_of_def length_headers)
  have "py_dict (zip (map Str headers) (map Str headers)) = zip (map Str headers) (map Str headers)"
    using headers_distinct by (intro py_dict_distinct) simp
  moreover have "record_row (zip (map Str headers) (map Str headers)) = headers"
    using record_row_entry_of [of headers] by (simp add: entry_of_def length_headers)
  ultimately show ?thesis
    using dict_writerow_record [OF e] by (simp add: writeheader_def)
qed

lemma write_data_records:
  assumes "rs \<noteq> []" "list_all is_record rs"
  shows "write_data rs w = (Inr (), w\<lparr>data_file := Some (store_text rs)\<rparr>)"
proof -
  obtain e es where rs: "rs = e # es" using assms(1) by (cases rs) auto
  have k: "map fst e = map Str headers" using assms(2) rs by (simp add: is_record_def)
  show ?thesis
    using dict_writerows_records [OF assms(2)] rs k
    by (simp add: write_data_def writeheader_headers store_text_def)
qed

lemma fits_headers: "list_all fits headers"
  by (simp add: headers_def fits_def field_limit_def)

lemma un_headers: "map universal_newlines headers = headers"
  by (simp add: headers_def)

lemma store_text_rows: "store_text rs = concat (map writerow (headers # map record_row rs))"
  by (simp add: store_text_def comp_def)

lemma csv_reader_store_text:
  assumes "list_all is_record rs" "list_all loadable rs"
  shows "csv_reader (readlines (universal_newlines (store_text rs)))
         = Inr (headers # map (\<lambda>e. map universal_newlines (record_row e)) rs)"
proof -
  have "list_all row_ok (map record_row rs)"
    using assms by (auto simp: list_all_iff row_ok_def loadable_def record_row_length)
  then have "list_all row_ok (headers # map record_row rs)"
    using fits_headers by (simp add: row_ok_def length_headers)
  from csv_roundtrip [OF this] show ?thesis
    unfolding store_text_rows by (simp add: un_headers comp_def)
qed

lemma DictReader_store:
  assumes "list_all is_record rs"
  shows "DictReader (headers # map (\<lambda>e. map universal_newlines (record_row e)) rs) = map nl_entry rs"
proof -
  have ne: "\<And>e. e \<in> set rs \<Longrightarrow> map universal_newlines (record_row e) \<noteq> []"
    using assms by (auto simp: list_all_iff dest!: record_row_length)
  have "filter (\<lambda>r. r \<noteq> []) (map (\<lambda>e. map universal_newlines (record_row e)) rs)
        = map (\<lambda>e. map universal_newlines (record_row e)) rs"
    using ne by (simp add: filter_id_conv)
  moreover have "\<And>e. e \<in> set rs \<Longrightarrow>
      dict_of_row headers (map universal_newlines (record_row e)) = nl_entry e"
    using assms by (simp add: list_all_iff dict_of_row_headers record_row_length nl_entry_record)
  ultimately show ?thesis by (simp add: DictReader_def)
qed

lemma read_data_store_text:
  assumes "data_file w = Some (store_text rs)" "list_all is_record rs" "list_all loadable rs"
  shows "read_data w = (Inr (map nl_entry rs), w)"
  using assms by (simp add: read_data_def csv_reader_store_text DictReader_store)

subsection \<open>Loaded records hold no carriage return and fit the limit\<close>

lemma process_char_ok:
  assumes "parser_ok p" "c \<noteq> Some CR" "parse_process_char p c = Inr p'"
  shows "parser_ok p'"
proof (cases c)
  case None
  then show ?thesis
    using assms
    by (cases "p_state p")
       (auto simp: parse_process_char_def start_field_def is_eol_def end_of_record_def
          parse_save_field_def parser_ok_def field_ok_def split: if_splits)
next
  case (Some ch)
  then have "ch \<noteq> CR" using assms(2) by simp
  then show ?thesis
    using assms Some
    by (cases "p_state p")
       (auto simp: parse_process_char_def start_field_def is_eol_def end_of_record_def
          parse_save_field_def parse_add_char_def set_state_def parser_ok_def field_ok_def
        split: if_splits sum.splits)
qed

lemma parse_line_ok:
  "parser_ok p \<Longrightarrow> CR \<notin> set l \<Longrightarrow> parse_line p l = Inr p' \<Longrightarrow> parser_ok p'"
proof (induction l arbitrary: p)
  case Nil
  then show ?case using process_char_ok [of p None p'] by simp
next
  case (Cons c l)
  then obtain p1 where p1: "parse_process_char p (Some c) = Inr p1" "parse_line p1 l = Inr p'"
    by (auto split: sum.splits)
  have "parser_ok p1" using process_char_ok [OF Cons.prems(1) _ p1(1)] Cons.prems(2) by auto
  then show ?case using Cons.IH [OF _ _ p1(2)] Cons.prems(2) by simp
qed

lemma parser_ok_reset: "parser_ok parse_reset"
  by (simp add: parser_ok_def field_ok_def parse_reset_def)

lemma reader_rows_ok:
  "parser_ok p \<Longrightarrow> list_all (\<lambda>l. CR \<notin> set l) ls \<Longrightarrow> reader_rows p ls = Inr rows \<Longrightarrow>
   list_all (list_all field_ok) rows"
proof (induction ls arbitrary: p rows)
  case Nil
  then show ?case by (auto simp: parser_ok_def parse_save_field_def split: if_splits)
next
  case (Cons l ls)
  then obtain p1 where p1: "parse_line p l = Inr p1" by (auto split: sum.splits)
  have c1: "parser_ok p1" using parse_line_ok [OF Cons.prems(1) _ p1] Cons.prems(2) by simp
  have ls: "list_all (\<lambda>l. CR \<notin> set l) ls" using Cons.prems(2) by simp
  show ?case
  proof (cases "p_state p1 = START_RECORD")
    case True
    then obtain rows' where r: "reader_rows parse_reset ls = Inr rows'" "rows = p_fields p1 # rows'"
      using Cons.prems(3) p1 by (auto split: sum.splits)
    have "list_all (list_all field_ok) rows'"
      using Cons.IH [OF parser_ok_reset ls r(1)] .
    then show ?thesis using r(2) c1 by (simp add: parser_ok_def)
  next
    case False
    then have "reader_rows p1 ls = Inr rows" using Cons.prems(3) p1 by simp
    then show ?thesis using Cons.IH [OF c1 ls] by simp
  qed
qed

lemma readlines_subset: "l \<in> set (readlines s) \<Longrightarrow> set l \<subseteq> set s"
proof (induction s arbitrary: l)
  case Nil
  then show ?case by simp
next
  case (Cons c s)
  show ?case
  proof (cases "readlines s")
    case Nil
    then show ?thesis using Cons.prems by (auto split: if_splits)
  next
    case (Cons a ls)
    then have "set a \<subseteq> set s" "\<And>x. x \<in> set ls \<Longrightarrow> set x \<subseteq> set s"
      using Cons.IH by simp_all
    then show ?thesis using Cons.prems Cons by (auto split: if_splits)
  qed
qed

lemma csv_reader_ok:
  assumes "csv_reader (readlines (universal_newlines content)) = Inr rows"
  shows "list_all (list_all field_ok) rows"
proof -
  have "list_all (\<lambda>l. CR \<notin> set l) (readlines (universal_newlines content))"
    using readlines_subset [of _ "universal_newlines content"] un_no_CR [of content]
    by (auto simp: list_all_iff)
  then show ?thesis
    using reader_rows_ok [OF parser_ok_reset] assms by (simp add: csv_reader_def)
qed

lemma dict_set_member: "x \<in> set (dict_set k v d) \<Longrightarrow> snd x = v \<or> x \<in> set d"
  by (induction d) (auto split: if_splits)

lemma dict_set_values: "snd ` set (dict_set k v d) \<subseteq> insert v (snd ` set d)"
  using dict_set_member [of _ k v d] by auto

lemma foldl_pairs_values:
  "snd ` set (foldl (\<lambda>d (k, v). dict_set k v d) d kvs) \<subseteq> snd ` set d \<union> snd ` set kvs"
proof (induction kvs arbitrary: d)
  case Nil
  then show ?case by simp
next
  case (Cons kv kvs)
  obtain k v where kv: "kv = (k, v)" by (cases kv)
  show ?case using Cons.IH [of "dict_set k v d"] dict_set_values [of k v d] kv by auto
qed

lemma foldl_none_values:
  "snd ` set (foldl (\<lambda>d k. dict_set (Str k) NoneVal d) d ks) \<subseteq> insert NoneVal (snd ` set d)"
proof (induction ks arbitrary: d)
  case Nil
  then show ?case by auto
next
  case (Cons k ks)
  show ?case using Cons.IH [of "dict_set (Str k) NoneVal d"] dict_set_values [of "Str k" NoneVal d] by auto
qed

lemma dict_of_row_values:
  assumes "(k, Str s) \<in> set (dict_of_row fieldnames row)"
  shows "s \<in> set row"
proof -
  let ?d = "py_dict (zip (map Str fieldnames) (map Str row))"
  have d: "snd ` set ?d \<subseteq> Str ` set row"
    using foldl_pairs_values [of "[]" "zip (map Str fieldnames) (map Str row)"]
    by (auto simp: py_dict_def dest!: set_zip_rightD)
  have "Str s \<in> snd ` set (dict_of_row fieldnames row)" using assms by force
  moreover have "snd ` set (dict_of_row fieldnames row) \<subseteq> insert NoneVal (insert (StrList (drop (length fieldnames) row)) (snd ` set ?d))"
    using dict_set_values [of NoneVal "StrList (drop (length fieldnames) row)" ?d]
      foldl_none_values [of ?d "drop (length row) fieldnames"]
    by (auto simp: dict_of_row_def Let_def)
  ultimately have "Str s \<in> snd ` set ?d" by auto
  then show ?thesis using d by auto
qed

lemma nl_entry_id: "list_all (\<lambda>kv. \<forall>s. snd kv = Str s \<longrightarrow> CR \<notin> set s) e \<Longrightarrow> nl_entry e = e"
proof (induction e)
  case Nil
  then show ?case by (simp add: nl_entry_def)
next
  case (Cons kv e)
  then have "nl_val (snd kv) = snd kv" by (cases "snd kv") (auto simp: un_id)
  then show ?case using Cons by (simp add: nl_entry_def)
qed

lemma read_data_nl:
  assumes "fst (read_data w) = Inr rs"
  shows "map nl_entry rs = rs"
proof -
  obtain content rows where t: "data_file w = Some content"
    and rows: "csv_reader (readlines (universal_newlines content)) = Inr rows"
    and rs: "rs = DictReader rows"
    using assms by (auto simp: read_data_def split: option.splits sum.splits)
  have cr: "list_all (list_all field_ok) rows" using csv_reader_ok [OF rows] .
  have "nl_entry e = e" if e: "e \<in> set rs" for e
  proof -
    obtain h row where "row \<in> set rows" "e = dict_of_row h row"
      using e rs by (auto simp: DictReader_def split: list.splits)
    then have "\<And>k s. (k, Str s) \<in> set e \<Longrightarrow> CR \<notin> set s"
      using dict_of_row_values cr by (fastforce simp: list_all_iff field_ok_def)
    then show ?thesis by (intro nl_entry_id) (auto simp: list_all_iff)
  qed
  then show ?thesis by (simp add: map_idI)
qed

lemma read_data_loadable:
  assumes "fst (read_data w) = Inr rs" and "e \<in> set rs" and "is_record e"
  shows "loadable e"
proof -
  obtain content rows where t: "data_file w = Some content"
    and rows: "csv_reader (readlines (universal_newlines content)) = Inr rows"
    and rs: "rs = DictReader rows"
    using assms(1) by (auto simp: read_data_def split: option.splits sum.splits)
  have ok: "list_all (list_all field_ok) rows" using csv_reader_ok [OF rows] .
  obtain h row where r: "row \<in> set rows" "e = dict_of_row h row"
    using assms(2) rs by (auto simp: DictReader_def split: list.splits)
  have "fits (field_text v)" if v: "v \<in> snd ` set e" for v
  proof -
    obtain k where kv: "(k, v) \<in> set e" using v by auto
    have "is_str v" using assms(3) kv by (force simp: is_record_def list_all_iff)
    then obtain s where s: "v = Str s" by (cases v) auto
    then have "s \<in> set row" using kv r(2) dict_of_row_values by blast
    then have "field_ok s" using ok r(1) by (auto simp: list_all_iff)
    then show ?thesis using s by (simp add: field_ok_def fits_def un_id field_text_def)
  qed
  then show ?thesis by (auto simp: loadable_def record_row_def list_all_iff)
qed

lemma read_data_all_loadable:
  "fst (read_data w) = Inr rs \<Longrightarrow> list_all is_record rs \<Longrightarrow> list_all loadable rs"
  using read_data_loadable by (auto simp: list_all_iff)

subsection \<open>Integers as text, both ways\<close>

lemma digit_cases: "d < 10 \<Longrightarrow> d \<in> {0, 1, 2, 3, 4, 5, 6, 7, 8, 9::nat}"
  by auto

lemma digit_char_props:
  assumes "d < 10"
  shows "is_digit (digit_char d)" "digit_val (digit_char d) = d"
  using digit_cases [OF assms] by (auto simp: digit_char_def is_digit_def digit_val_def)

lemma is_digit_facts:
  "is_digit c \<Longrightarrow> \<not> is_space c \<and> c \<noteq> CR \<and> c \<noteq> CHR ''-'' \<and> c \<noteq> CHR ''+'' \<and> c \<noteq> CHR ''_''"
  by (auto simp: is_digit_def is_space_def)

lemma digits_of_digits: "list_all is_digit (digits_of n) \<and> digits_of n \<noteq> []"
proof (induction n rule: digits_of.induct)
  case (1 n)
  show ?case
  proof (cases "n < 10")
    case True
    then show ?thesis by (subst (1 2) digits_of.simps) (simp add: digit_char_props)
  next
    case False
    then show ?thesis using 1 by (subst (1 2) digits_of.simps) (simp add: digit_char_props)
  qed
qed

lemma foldl_digits_of:
  "foldl (\<lambda>a c. 10 * a + digit_val c) acc (digits_of n) = acc * 10 ^ length (digits_of n) + n"
proof (induction n arbitrary: acc rule: digits_of.induct)
  case (1 n)
  show ?case
  proof (cases "n < 10")
    case True
    then show ?thesis by (subst (1 2) digits_of.simps) (simp add: digit_char_props)
  next
    case False
    have step: "digits_of n = digits_of (n div 10) @ [digit_char (n mod 10)]"
      using False by (subst digits_of.simps) simp
    show ?thesis
      unfolding step using 1 [OF False] by (simp add: digit_char_props algebra_simps)
  qed
qed

lemma decimal_digits_of: "decimal (digits_of n) = Some n"
  using digits_of_digits [of n] foldl_digits_of [of 0 n] by (simp add: decimal_def)

lemma hd_digits_of: "digits_of n = c # cs \<Longrightarrow> is_digit c"
  using digits_of_digits [of n] by auto

lemma base10_int_text: "base10 (int_text i) = Some i"
proof (cases "i < 0")
  case True
  then show ?thesis by (simp add: int_text_def base10_def decimal_digits_of)
next
  case False
  obtain c cs where d: "digits_of (nat i) = c # cs"
    using digits_of_digits [of "nat i"] by (cases "digits_of (nat i)") auto
  have "c \<noteq> CHR ''-''" using hd_digits_of [OF d] is_digit_facts by blast
  then show ?thesis
    using False d decimal_digits_of [of "nat i"] by (simp add: int_text_def base10_def)
qed

lemma digits_value_digits:
  "list_all is_digit ds \<Longrightarrow> digits_value acc ds = Some (foldl (\<lambda>a c. 10 * a + digit_val c) acc ds)"
  by (induction acc ds rule: digits_value.induct) auto

lemma filter_digits: "list_all is_digit ds \<Longrightarrow> filter is_digit ds = ds"
  by (induction ds) auto

lemma decimal_props:
  assumes "decimal ds = Some n"
  shows "ds \<noteq> []" "list_all is_digit ds"
  using assms by (auto simp: decimal_def split: if_splits)

lemma int_body_decimal:
  assumes "decimal ds = Some n" and "length ds \<le> max_str_digits"
  shows "int_body ds = Some n"
proof -
  have d: "ds \<noteq> []" "list_all is_digit ds" using decimal_props [OF assms(1)] .
  then obtain c cs where c: "ds = c # cs" "is_digit c" by (cases ds) auto
  have "length (filter is_digit ds) \<le> max_str_digits" using assms(2) d(2) by (simp add: filter_digits)
  moreover have "digits_value 0 ds = Some n"
    using assms(1) d by (simp add: digits_value_digits decimal_def)
  ultimately show ?thesis using c by (simp add: int_body_def)
qed

lemma int_body_too_long:
  assumes "list_all is_digit ds" and "max_str_digits < length ds"
  shows "int_body ds = None"
proof -
  have "\<not> length (filter is_digit ds) \<le> max_str_digits"
    using assms by (simp add: filter_digits)
  then show ?thesis by (cases ds) (simp_all add: int_body_def)
qed

lemma strip_id:
  assumes "s \<noteq> []" "\<not> is_space (hd s)" "\<not> is_space (last s)"
  shows "py_strip s = s"
proof -
  have 1: "dropWhile is_space s = s" using assms by (cases s) auto
  have "rev s \<noteq> []" "\<not> is_space (hd (rev s))" using assms by (simp_all add: hd_rev)
  then have 2: "dropWhile is_space (rev s) = rev s" by (cases "rev s") auto
  show ?thesis by (simp add: py_strip_def 1 2)
qed

lemma digits_plain:
  assumes "ds \<noteq> []" and "list_all is_digit ds"
  shows "universal_newlines ds = ds" "py_strip ds = ds"
proof -
  have "CR \<notin> set ds" using assms(2) is_digit_facts by (auto simp: list_all_iff)
  then show "universal_newlines ds = ds" by (rule un_id)
  have "is_digit (last ds)" "is_digit (hd ds)" using assms by (auto simp: list_all_iff)
  then show "py_strip ds = ds" using assms(1) is_digit_facts by (intro strip_id) auto
qed

lemma py_int_digits:
  assumes "ds \<noteq> []" and "list_all is_digit ds"
  shows "py_int (universal_newlines ds) = map_option int (int_body ds)"
proof -
  obtain c cs where c: "ds = c # cs" using assms(1) by (cases ds) auto
  then have "is_digit c" using assms(2) by simp
  then have "c \<noteq> CHR ''-''" "c \<noteq> CHR ''+''" using is_digit_facts by auto
  then show ?thesis
    unfolding digits_plain(1) [OF assms] using digits_plain(2) [OF assms] c
    by (simp add: py_int_def)
qed

lemma py_int_minus_digits:
  assumes "ds \<noteq> []" and "list_all is_digit ds"
  shows "py_int (universal_newlines (CHR ''-'' # ds)) = map_option (\<lambda>n. - int n) (int_body ds)"
proof -
  let ?s = "CHR ''-'' # ds"
  have "CR \<notin> set ?s" using assms(2) is_digit_facts by (auto simp: list_all_iff)
  then have u: "universal_newlines ?s = ?s" by (rule un_id)
  have "is_digit (last ds)" using assms by (auto simp: list_all_iff)
  then have "\<not> is_space (last ?s)" using assms(1) is_digit_facts by auto
  moreover have "\<not> is_space (hd ?s)" by (simp add: is_space_def)
  ultimately have "py_strip ?s = ?s" by (intro strip_id) auto
  then show ?thesis unfolding u by (simp add: py_int_def)
qed

lemma py_int_base10:
  assumes "base10 s = Some n" and "length (filter is_digit s) \<le> max_str_digits"
  shows "py_int (universal_newlines s) = Some n"
proof -
  obtain c cs where s: "s = c # cs" using assms(1) by (cases s) (auto simp: base10_def)
  show ?thesis
  proof (cases "c = CHR ''-''")
    case True
    then obtain m where m: "decimal cs = Some m" "n = - int m"
      using assms(1) s by (auto simp: base10_def)
    have dg: "cs \<noteq> []" "list_all is_digit cs" using decimal_props [OF m(1)] .
    have "\<not> is_digit (CHR ''-'')" by (simp add: is_digit_def)
    then have "length cs \<le> max_str_digits"
      using assms(2) s True dg(2) by (simp add: filter_digits)
    then show ?thesis
      using py_int_minus_digits [OF dg] int_body_decimal [OF m(1)] s True m(2) by simp
  next
    case False
    then obtain m where m: "decimal s = Some m" "n = int m"
      using assms(1) s by (auto simp: base10_def)
    have dg: "s \<noteq> []" "list_all is_digit s" using decimal_props [OF m(1)] .
    have "length s \<le> max_str_digits" using assms(2) dg(2) by (simp add: filter_digits)
    then show ?thesis
      using py_int_digits [OF dg] int_body_decimal [OF m(1)] m(2) by simp
  qed
qed

lemma py_int_too_long:
  assumes "ds \<noteq> []" and "list_all is_digit ds" and "max_str_digits < length ds"
  shows "py_int (universal_newlines ds) = None"
  using py_int_digits [OF assms(1,2)] int_body_too_long [OF assms(2,3)] by simp

lemma int_text_digits: "filter is_digit (int_text i) = digits_of (nat \<bar>i\<bar>)"
proof -
  have "\<not> is_digit (CHR ''-'')" by (simp add: is_digit_def)
  then show ?thesis
    using digits_of_digits by (auto simp: int_text_def filter_digits)
qed

lemma py_str_Inr: "py_str i = Inr t \<longleftrightarrow> (t = int_text i \<and> length (digits_of (nat \<bar>i\<bar>)) \<le> max_str_digits)"
  by (auto simp: py_str_def)

lemma py_int_py_str:
  assumes "py_str i = Inr t"
  shows "py_int (universal_newlines t) = Some i"
proof -
  have t: "t = int_text i" "length (digits_of (nat \<bar>i\<bar>)) \<le> max_str_digits"
    using assms by (simp_all add: py_str_Inr)
  show ?thesis
    unfolding t(1) using t(2) by (intro py_int_base10 base10_int_text) (simp add: int_text_digits)
qed

lemma digits_of_mono: "m \<le> n \<Longrightarrow> length (digits_of m) \<le> length (digits_of n)"
proof (induction n arbitrary: m rule: digits_of.induct)
  case (1 n)
  show ?case
  proof (cases "n < 10")
    case True
    then have "m < 10" using 1(2) by simp
    then show ?thesis using True by (subst (1 2) digits_of.simps) simp
  next
    case False
    have n: "length (digits_of n) = Suc (length (digits_of (n div 10)))"
      using False by (subst digits_of.simps) simp
    show ?thesis
    proof (cases "m < 10")
      case True
      then have "length (digits_of m) = 1" by (subst digits_of.simps) simp
      then show ?thesis using n by simp
    next
      case m: False
      have "length (digits_of m) = Suc (length (digits_of (m div 10)))"
        using m by (subst digits_of.simps) simp
      moreover have "length (digits_of (m div 10)) \<le> length (digits_of (n div 10))"
        using 1(2) by (intro 1(1) [OF False]) (simp add: div_le_mono)
      ultimately show ?thesis using n by simp
    qed
  qed
qed

lemma py_str_mono:
  assumes "0 \<le> i" and "i \<le> j" and "py_str j = Inr t"
  shows "py_str i = Inr (int_text i)"
proof -
  have "nat \<bar>i\<bar> \<le> nat \<bar>j\<bar>" using assms(1,2) by simp
  then have "length (digits_of (nat \<bar>i\<bar>)) \<le> length (digits_of (nat \<bar>j\<bar>))" by (rule digits_of_mono)
  then show ?thesis using assms(3) by (simp add: py_str_Inr)
qed

lemma int_text_no_CR: "CR \<notin> set (int_text i)"
proof -
  have "\<And>n. CR \<notin> set (digits_of n)"
    using digits_of_digits is_digit_facts by (auto simp: list_all_iff)
  then show ?thesis by (simp add: int_text_def)
qed

lemma int_text_fits: "py_str i = Inr t \<Longrightarrow> fits t"
proof -
  assume a: "py_str i = Inr t"
  then have "length (int_text i) \<le> Suc max_str_digits" "t = int_text i"
    by (auto simp: py_str_Inr int_text_def)
  moreover have "length (universal_newlines t) \<le> length t" by (rule length_un)
  ultimately show ?thesis by (simp add: fits_def field_limit_def max_str_digits_def)
qed

subsection \<open>Searching and printing\<close>

lemma and_then_Inr: "m w = (Inr x, w') \<Longrightarrow> and_then m f w = f x w'"
  by (simp add: and_then_def)

lemma and_then_Inl: "m w = (Inl e, w') \<Longrightarrow> and_then m f w = (Inl e, w')"
  by (simp add: and_then_def)

lemma read_data_world: "read_data w = (fst (read_data w), w)"
  by (simp add: read_data_def split: option.splits sum.splits)

lemma read_data_file: "data_file w' = data_file w \<Longrightarrow> fst (read_data w') = fst (read_data w)"
  by (simp add: read_data_def split: option.splits sum.splits)

lemma read_data_eq:
  "fst (read_data w) = Inr rs \<Longrightarrow> data_file w' = data_file w \<Longrightarrow> read_data w' = (Inr rs, w')"
  using read_data_world [of w'] read_data_file [of w' w] by simp

lemma length_6: "length xs = 6 \<Longrightarrow> \<exists>a b c d e f. xs = [a, b, c, d, e, f]"
  by (auto simp: length_Suc_conv numeral_eq_Suc)

lemma is_record_cases:
  assumes "is_record e"
  obtains v0 v1 v2 v3 v4 v5 where
    "e = [(Str ''id'', Str v0), (Str ''date'', Str v1), (Str ''type'', Str v2),
          (Str ''amount'', Str v3), (Str ''category'', Str v4), (Str ''description'', Str v5)]"
proof -
  obtain a b c d x y where r: "record_row e = [a, b, c, d, x, y]"
    using length_6 [OF record_row_length [OF assms]] by blast
  have "e = entry_of [a, b, c, d, x, y]"
    using is_record_entry_of [OF assms] r by simp
  then show ?thesis using that by (simp add: entry_of_def headers_def)
qed

lemma is_record_new_entry: "is_record (new_entry n d t a c ds)"
  by (simp add: is_record_def new_entry_def headers_def)

lemma is_record_id: "is_record e \<Longrightarrow> \<exists>v. dict_item e (Str ''id'') = Inr (Str v)"
  by (erule is_record_cases) (simp add: dict_item_def)

lemma is_record_edited: "is_record e \<Longrightarrow> is_record (edited e d t a c ds)"
  by (erule is_record_cases) (simp add: is_record_def edited_def headers_def dict_get_def override_def)

lemma first_with_id_none:
  "list_all is_record rs \<Longrightarrow> list_all (\<lambda>x. \<not> has_id q x) rs \<Longrightarrow> first_with_id q rs = Inr None"
proof (induction rs)
  case Nil
  then show ?case by simp
next
  case (Cons x rs)
  then obtain v where "dict_item x (Str ''id'') = Inr (Str v)" using is_record_id by auto
  then show ?case using Cons by (auto simp: has_id_def)
qed

lemma first_with_id_hit:
  "list_all is_record pre \<Longrightarrow> list_all (\<lambda>x. \<not> has_id q x) pre \<Longrightarrow> has_id q e \<Longrightarrow>
   first_with_id q (pre @ e # post) = Inr (Some e)"
proof (induction pre)
  case Nil
  then show ?case by (simp add: has_id_def)
next
  case (Cons x pre)
  then obtain v where "dict_item x (Str ''id'') = Inr (Str v)" using is_record_id by auto
  then show ?case using Cons by (auto simp: has_id_def)
qed

lemma replace_first_hit:
  "list_all is_record pre \<Longrightarrow> list_all (\<lambda>x. \<not> has_id q x) pre \<Longrightarrow> has_id q e \<Longrightarrow>
   replace_first q e' (pre @ e # post) = Inr (pre @ e' # post)"
proof (induction pre)
  case Nil
  then show ?case by (simp add: has_id_def)
next
  case (Cons x pre)
  then obtain v where "dict_item x (Str ''id'') = Inr (Str v)" using is_record_id by auto
  then show ?case using Cons by (auto simp: has_id_def)
qed

lemma search_by_id_eq:
  "fst (read_data w) = Inr rs \<Longrightarrow> search_by_id q w = (first_with_id q rs, w)"
  using read_data_world [of w] by (simp add: search_by_id_def and_then_def result_def)

lemma print_ids_records:
  "list_all is_record rs \<Longrightarrow>
   print_ids rs w = (Inr (), w\<lparr>stdout := stdout w @ map (\<lambda>x. Id_line (dict_get x (Str ''id'') NoneVal)) rs\<rparr>)"
proof (induction rs arbitrary: w)
  case Nil
  then show ?case by (simp add: result_def)
next
  case (Cons x rs)
  then obtain v where v: "dict_item x (Str ''id'') = Inr (Str v)" using is_record_id by auto
  then have g: "dict_get x (Str ''id'') NoneVal = Str v"
    by (simp add: dict_item_def dict_get_def split: option.splits)
  have "print_ids (x # rs) w = print_ids rs (w\<lparr>stdout := stdout w @ [Id_line (Str v)]\<rparr>)"
    using v by (simp add: and_then_def result_def py_print_def)
  then show ?case using Cons g by simp
qed

lemma not_found_eq:
  assumes "fst (read_data w) = Inr rs" "list_all is_record rs"
  shows "not_found w = (Inr (), w\<lparr>stdout := stdout w @ No_such_id # All_ids_heading #
           map (\<lambda>x. Id_line (dict_get x (Str ''id'') NoneVal)) rs\<rparr>)"
proof -
  let ?w1 = "w\<lparr>stdout := stdout w @ [No_such_id]\<rparr>"
  let ?w2 = "?w1\<lparr>stdout := stdout ?w1 @ [All_ids_heading]\<rparr>"
  have r: "read_data ?w1 = (Inr rs, ?w1)" using assms(1) by (intro read_data_eq) simp_all
  have "not_found w = print_ids rs ?w2"
    by (simp add: not_found_def show_all_ids_def and_then_def py_print_def r)
  then show ?thesis using print_ids_records [OF assms(2), of ?w2] by simp
qed

lemma ask_field_eq:
  assumes "stdin w = new # rest" "set_or_keep k new e = Inr e'"
  shows "ask_field pr k e w = (Inr e', w\<lparr>stdout := stdout w @ [Prompt pr], stdin := rest\<rparr>)"
  using assms by (simp add: ask_field_def and_then_def py_input_def result_def Let_def)

subsection \<open>Adding and editing\<close>

lemma load_last_id_world: "load_last_id w = (fst (load_last_id w), w)"
  by (simp add: load_last_id_def split: option.splits)

lemma add_entry_eq:
  assumes rd: "fst (read_data w) = Inr rs"
    and recs: "list_all is_record rs"
    and cnt: "fst (load_last_id w) = Inr n"
    and txt_id: "py_str (n + 1) = Inr idt"
    and inp: "stdin w = d # ty # a # c # ds # rest"
  shows "add_entry w =
     (Inr (), w\<lparr>data_file := Some (store_text (rs @ [new_entry idt d ty a c ds])),
                 last_id_file := Some idt,
                 stdin := rest,
                 stdout := stdout w @ [Prompt Ask_date, Prompt Ask_type, Prompt Ask_amount,
                                       Prompt Ask_category, Prompt Ask_description, Entry_added]\<rparr>)"
proof -
  let ?new = "new_entry idt d ty a c ds"
  have g: "get_next_id w = (Inr (n + 1), w)"
    using cnt load_last_id_world [of w] by (simp add: get_next_id_def and_then_def result_def)
  have r: "read_data w' = (Inr rs, w')" if "data_file w' = data_file w" for w'
    using rd that by (rule read_data_eq)
  have "rs @ [?new] \<noteq> []" "list_all is_record (rs @ [?new])"
    using recs is_record_new_entry by simp_all
  then have wr: "write_data (rs @ [?new]) w' = (Inr (), w'\<lparr>data_file := Some (store_text (rs @ [?new]))\<rparr>)" for w'
    by (rule write_data_records)
  show ?thesis
    unfolding add_entry_def
    by (simp add: and_then_def g r wr py_input_def inp Let_def save_last_id_def py_print_def
        result_def txt_id)
qed

lemma add_entry_read_fails:
  assumes rd: "fst (read_data w) = Inl e"
    and cnt: "fst (load_last_id w) = Inr n"
    and txt_id: "py_str (n + 1) = Inr idt"
    and inp: "stdin w = d # ty # a # c # ds # rest"
  shows "add_entry w =
     (Inl e, w\<lparr>stdin := rest,
                stdout := stdout w @ [Prompt Ask_date, Prompt Ask_type, Prompt Ask_amount,
                                      Prompt Ask_category, Prompt Ask_description]\<rparr>)"
proof -
  have g: "get_next_id w = (Inr (n + 1), w)"
    using cnt load_last_id_world [of w] by (simp add: get_next_id_def and_then_def result_def)
  have r: "read_data w' = (Inl e, w')" if "data_file w' = data_file w" for w'
    using rd read_data_world [of w'] read_data_file [OF that] by simp
  show ?thesis
    unfolding add_entry_def
    by (simp add: and_then_def g r py_input_def inp Let_def result_def txt_id)
qed

lemma edit_entry_found:
  assumes rd: "fst (read_data w) = Inr (pre @ e # post)"
    and recs: "list_all is_record (pre @ e # post)"
    and first: "list_all (\<lambda>x. \<not> has_id q x) pre"
    and hit: "has_id q e"
    and inp: "stdin w = d # t # a # c # ds # rest"
  shows "edit_entry q w =
     (Inr (), w\<lparr>data_file := Some (store_text (pre @ edited e d t a c ds # post)),
                 stdin := rest,
                 stdout := stdout w @ [Current_data e, Prompt Ask_new_date, Prompt Ask_new_type,
                    Prompt Ask_new_amount, Prompt Ask_new_category, Prompt Ask_new_description,
                    Entry_updated]\<rparr>)"
proof -
  have pre: "list_all is_record pre" and e: "is_record e" using recs by simp_all
  let ?e' = "edited e d t a c ds"
  let ?w6 = "w\<lparr>stdout := stdout w @ [Current_data e, Prompt Ask_new_date, Prompt Ask_new_type,
                    Prompt Ask_new_amount, Prompt Ask_new_category, Prompt Ask_new_description],
                stdin := rest\<rparr>"
  have r: "read_data w = (Inr (pre @ e # post), w)" using rd by (intro read_data_eq) simp_all
  have s: "search_by_id q w = (Inr (Some e), w)"
    using search_by_id_eq [OF rd] first_with_id_hit [OF pre first hit] by simp
  have ne: "e \<noteq> []" using is_record_length [OF e] by auto
  have rp: "replace_first q ?e' (pre @ e # post) = Inr (pre @ ?e' # post)"
    using pre first hit by (rule replace_first_hit)
  have "pre @ ?e' # post \<noteq> []" "list_all is_record (pre @ ?e' # post)"
    using recs is_record_edited [OF e] by simp_all
  then have wr: "write_data (pre @ ?e' # post) ?w6
                 = (Inr (), ?w6\<lparr>data_file := Some (store_text (pre @ ?e' # post))\<rparr>)"
    by (rule write_data_records)
  have asks:
    "and_then (py_print (Current_data e)) (\<lambda>_.
     and_then (ask_field Ask_new_date ''date'' e) (\<lambda>entry.
     and_then (ask_field Ask_new_type ''type'' entry) (\<lambda>entry.
     and_then (ask_field Ask_new_amount ''amount'' entry) (\<lambda>entry.
     and_then (ask_field Ask_new_category ''category'' entry) (\<lambda>entry.
     and_then (ask_field Ask_new_description ''description'' entry) (\<lambda>entry.
       k entry)))))) w = k ?e' ?w6" for k :: "entry \<Rightarrow> unit action"
    using e inp
    by (elim is_record_cases)
       (simp add: and_then_def py_print_def ask_field_def py_input_def result_def Let_def
          set_or_keep_def dict_item_def edited_def dict_get_def override_def)
  have "edit_entry q w =
        and_then (result (replace_first q ?e' (pre @ e # post))) (\<lambda>finances.
        and_then (write_data finances) (\<lambda>_. py_print Entry_updated)) ?w6"
    unfolding edit_entry_def and_then_def [of read_data] and_then_def [of "search_by_id q"]
    by (simp add: r s ne asks)
  also have "\<dots> = and_then (write_data (pre @ ?e' # post)) (\<lambda>_. py_print Entry_updated) ?w6"
    by (simp add: rp and_then_def result_def)
  finally show ?thesis
    by (simp add: and_then_def wr py_print_def)
qed

lemma edit_entry_missing:
  assumes rd: "fst (read_data w) = Inr rs"
    and recs: "list_all is_record rs"
    and none: "list_all (\<lambda>x. \<not> has_id q x) rs"
  shows "edit_entry q w =
     (Inr (), w\<lparr>stdout := stdout w @ No_such_id # All_ids_heading #
                   map (\<lambda>x. Id_line (dict_get x (Str ''id'') NoneVal)) rs\<rparr>)"
proof -
  have r: "read_data w = (Inr rs, w)" using rd by (intro read_data_eq) simp_all
  have s: "search_by_id q w = (Inr None, w)"
    using search_by_id_eq [OF rd] first_with_id_none [OF recs none] by simp
  have "edit_entry q w = not_found w"
    unfolding edit_entry_def and_then_def [of read_data] and_then_def [of "search_by_id q"]
    by (simp add: r s)
  then show ?thesis using not_found_eq [OF rd recs] by simp
qed

subsection \<open>A run of adds\<close>

lemma nl_new_entry:
  "nl_entry (new_entry idt d ty a c ds) =
   new_entry (universal_newlines idt) (universal_newlines d) (universal_newlines ty)
     (universal_newlines a) (universal_newlines c) (universal_newlines ds)"
  by (simp add: nl_entry_def new_entry_def)

lemma is_record_nl_entry: "is_record e \<Longrightarrow> is_record (nl_entry e)"
  by (erule is_record_cases) (simp add: is_record_def nl_entry_def headers_def)

lemma loadable_new_entry:
  "loadable (new_entry idt d ty a c ds) \<longleftrightarrow> list_all fits [idt, d, ty, a, c, ds]"
  by (simp add: loadable_def record_row_def new_entry_def field_text_def)

lemma fits_nl: "fits s \<Longrightarrow> fits (universal_newlines s)"
  by (simp add: fits_def)

lemma load_after_save:
  "py_str n = Inr t \<Longrightarrow> last_id_file w = Some t \<Longrightarrow> load_last_id w = (Inr n, w)"
  by (simp add: load_last_id_def py_int_py_str)

lemma five_answers:
  assumes "length xs = 5 * Suc N"
  obtains d ty a c ds rest where "xs = d # ty # a # c # ds # rest" "length rest = 5 * N"
proof -
  have "length xs = Suc (Suc (Suc (Suc (Suc (5 * N)))))" using assms by simp
  then show ?thesis using that by (auto simp: length_Suc_conv)
qed

text \<open>The store as it loads after one add.\<close>

lemma add_entry_step:
  assumes rd: "fst (read_data w) = Inr rs"
    and recs: "list_all is_record rs"
    and cnt: "fst (load_last_id w) = Inr n"
    and txt_id: "py_str (n + 1) = Inr idt"
    and inp: "stdin w = d # ty # a # c # ds # rest"
    and fit: "list_all fits [d, ty, a, c, ds]"
  shows "\<exists>w'. add_entry w = (Inr (), w') \<and>
           fst (read_data w') = Inr (rs @ [nl_entry (new_entry idt d ty a c ds)]) \<and>
           fst (load_last_id w') = Inr (n + 1) \<and> stdin w' = rest"
proof -
  let ?new = "new_entry idt d ty a c ds"
  let ?w' = "w\<lparr>data_file := Some (store_text (rs @ [?new])),
                 last_id_file := Some idt,
                 stdin := rest,
                 stdout := stdout w @ [Prompt Ask_date, Prompt Ask_type, Prompt Ask_amount,
                                       Prompt Ask_category, Prompt Ask_description, Entry_added]\<rparr>"
  have a: "add_entry w = (Inr (), ?w')" using rd recs cnt txt_id inp by (rule add_entry_eq)
  have 1: "list_all is_record (rs @ [?new])" using recs is_record_new_entry by simp
  have "loadable ?new" using fit int_text_fits [OF txt_id] by (simp add: loadable_new_entry)
  then have 2: "list_all loadable (rs @ [?new])"
    using read_data_all_loadable [OF rd recs] by simp
  have "read_data ?w' = (Inr (map nl_entry (rs @ [?new])), ?w')"
    using _ 1 2 by (rule read_data_store_text) simp
  then have r: "fst (read_data ?w') = Inr (rs @ [nl_entry ?new])"
    using read_data_nl [OF rd] by simp
  have l: "fst (load_last_id ?w') = Inr (n + 1)"
    using load_after_save [OF txt_id, of ?w'] by simp
  show ?thesis using a r l by (intro exI [of _ ?w']) simp
qed

lemma repeat_add_general:
  assumes "fst (read_data w) = Inr rs" "list_all is_record rs" "fst (load_last_id w) = Inr n"
    and "0 \<le> n" "py_str (n + int N) = Inr final"
    and "stdin w = inputs @ rest" "length inputs = 5 * N" "list_all fits inputs"
  shows "\<exists>w'. repeat_add N w = (Inr (), w') \<and>
           fst (read_data w') = Inr (rs @ added_records n inputs) \<and>
           fst (load_last_id w') = Inr (n + int N) \<and> stdin w' = rest"
  using assms
proof (induction N arbitrary: w rs n inputs)
  case 0
  then show ?case by (simp add: result_def)
next
  case (Suc N)
  obtain d ty a c ds more where inp: "inputs = d # ty # a # c # ds # more" "length more = 5 * N"
    using five_answers [OF Suc.prems(7)] by metis
  have idt: "py_str (n + 1) = Inr (int_text (n + 1))"
    using Suc.prems(4) by (intro py_str_mono [OF _ _ Suc.prems(5)]) simp_all
  let ?e = "nl_entry (new_entry (int_text (n + 1)) d ty a c ds)"
  have sw: "stdin w = d # ty # a # c # ds # (more @ rest)" using Suc.prems(6) inp by simp
  have fit: "list_all fits [d, ty, a, c, ds]" "list_all fits more"
    using Suc.prems(8) inp by simp_all
  obtain w1 where w1: "add_entry w = (Inr (), w1)" "fst (read_data w1) = Inr (rs @ [?e])"
      "fst (load_last_id w1) = Inr (n + 1)" "stdin w1 = more @ rest"
    using add_entry_step [OF Suc.prems(1-3) idt sw fit(1)] by blast
  have recs: "list_all is_record (rs @ [?e])"
    using Suc.prems(2) is_record_nl_entry [OF is_record_new_entry] by simp
  have final: "py_str (n + 1 + int N) = Inr final" using Suc.prems(5) by (simp add: algebra_simps)
  have pos: "0 \<le> n + 1" using Suc.prems(4) by simp
  obtain w' where w': "repeat_add N w1 = (Inr (), w')"
      "fst (read_data w') = Inr ((rs @ [?e]) @ added_records (n + 1) more)"
      "fst (load_last_id w') = Inr (n + 1 + int N)" "stdin w' = rest"
    using Suc.IH [OF w1(2) recs w1(3) pos final w1(4) inp(2) fit(2)] by blast
  have "repeat_add (Suc N) w = (Inr (), w')"
    using w1(1) w'(1) by (simp add: and_then_def)
  then show ?case using w'(2,3,4) inp by simp
qed

lemma added_records_length: "length inputs = 5 * N \<Longrightarrow> length (added_records n inputs) = N"
proof (induction N arbitrary: n inputs)
  case 0
  then show ?case by simp
next
  case (Suc N)
  then obtain d ty a c ds rest where inp: "inputs = d # ty # a # c # ds # rest"
    using five_answers [of inputs N] by metis
  then show ?case using Suc by simp
qed

lemma new_entry_id:
  "dict_item (nl_entry (new_entry (int_text k) d ty a c ds)) (Str ''id'') = Inr (Str (int_text k))"
  by (simp add: nl_new_entry un_id int_text_no_CR) (simp add: new_entry_def dict_item_def)

lemma added_records_ids:
  "length inputs = 5 * N \<Longrightarrow>
   map (\<lambda>e. dict_item e (Str ''id'')) (added_records n inputs)
   = map (\<lambda>i. Inr (Str (int_text (n + 1 + int i)))) [0..<N]"
proof (induction N arbitrary: n inputs)
  case 0
  then show ?case by simp
next
  case (Suc N)
  then obtain d ty a c ds rest where inp: "inputs = d # ty # a # c # ds # rest"
    using five_answers [of inputs N] by metis
  have "length rest = 5 * N" using Suc.prems inp by simp
  from Suc.IH [OF this, of "n + 1"]
  have IH: "map (\<lambda>e. dict_item e (Str ''id'')) (added_records (n + 1) rest)
            = map (\<lambda>i. Inr (Str (int_text (n + 1 + int (Suc i))))) [0..<N]"
    by (simp add: algebra_simps)
  have "[0..<Suc N] = 0 # map Suc [0..<N]"
    by (simp add: upt_conv_Cons map_Suc_upt del: upt_Suc)
  then show ?case using inp IH by (simp add: new_entry_id comp_def del: upt_Suc)
qed

subsection \<open>A field beyond the limit\<close>

lemma feed_plain_overflow:
  "p_state p = IN_FIELD \<Longrightarrow> \<not> needs_quote g \<Longrightarrow> length (p_field p) \<le> field_limit \<Longrightarrow>
   field_limit < length (p_field p) + length g \<Longrightarrow> feed p (g @ rest) = Inl CsvError"
proof (induction g arbitrary: p)
  case Nil
  then show ?case by simp
next
  case (Cons c g)
  have c: "c \<noteq> LF" "c \<noteq> CR" "c \<noteq> COMMA" and g: "\<not> needs_quote g"
    using Cons.prems(2) by (auto simp: needs_quote_def special_char_def)
  show ?case
  proof (cases "length (p_field p) < field_limit")
    case True
    let ?p' = "p\<lparr>p_field := p_field p @ [c]\<rparr>"
    have "parse_process_char p (Some c) = Inr ?p'"
      using c Cons.prems(1) True by (simp add: parse_process_char_def is_eol_def parse_add_char_def)
    then have "feed p ((c # g) @ rest) = feed ?p' (g @ rest)" using c by simp
    also have "\<dots> = Inl CsvError"
      using Cons.prems g True by (intro Cons.IH) auto
    finally show ?thesis .
  next
    case False
    then have "parse_process_char p (Some c) = Inl CsvError"
      using c Cons.prems(1) by (simp add: parse_process_char_def is_eol_def parse_add_char_def)
    then show ?thesis by simp
  qed
qed

lemma feed_field_overflow:
  assumes "\<not> needs_quote f" and "field_limit < length f"
  shows "feed (at_field acc) (f @ rest) = Inl CsvError"
proof -
  obtain c g where f: "f = c # g" using assms(2) by (cases f) auto
  have c: "c \<noteq> LF" "c \<noteq> CR" "c \<noteq> COMMA" "c \<noteq> DQUOTE" and g: "\<not> needs_quote g"
    using assms(1) f by (auto simp: needs_quote_def special_char_def)
  let ?q = "\<lparr>p_state = IN_FIELD, p_field = [c], p_fields = acc\<rparr>"
  have "feed (at_field acc) (f @ rest) = feed ?q (g @ rest)"
    using f c field_limit_pos
    by (simp add: parse_process_char_def start_field_def is_eol_def parse_add_char_def set_state_def)
  also have "\<dots> = Inl CsvError"
    using g assms(2) f field_limit_pos by (intro feed_plain_overflow) auto
  finally show ?thesis .
qed

lemma rows_text:
  "list_all (\<lambda>r. 2 \<le> length r) rows \<Longrightarrow>
   universal_newlines (concat (map writerow rows)) = concat (map (\<lambda>r. enc_row r @ [LF]) rows)"
proof (induction rows)
  case Nil
  then show ?case by simp
next
  case (Cons r rows)
  then have "2 \<le> length r" by simp
  from writerow_un [OF this] Cons show ?case by simp
qed

lemma feed_header_then:
  "feed parse_reset (enc_row headers @ LF # rest) =
   (case feed parse_reset rest of Inl e \<Rightarrow> Inl e | Inr rows \<Rightarrow> Inr (headers # rows))"
proof -
  have h: "headers = ''id'' # tl headers" by (simp add: headers_def)
  obtain c cs where hd: "enc_row headers @ LF # rest = c # cs" "c \<noteq> LF" "c \<noteq> CR"
    using enc_row_hd [of headers "LF # rest"] by (auto simp: length_headers)
  have "feed parse_reset (enc_row headers @ LF # rest) = feed (at_field []) (enc_row headers @ LF # rest)"
    unfolding hd(1) using hd(2,3) by (rule feed_start)
  also have "\<dots> = (case feed parse_reset rest of Inl e \<Rightarrow> Inl e
                    | Inr rows \<Rightarrow> Inr (([] @ map universal_newlines (''id'' # tl headers)) # rows))"
    by (subst (1) h, rule feed_row) (use fits_headers h in simp)
  finally show ?thesis using h un_headers by (simp split: sum.splits)
qed

lemma oversize_facts:
  "\<not> needs_quote oversize_answer" "field_limit < length oversize_answer"
  by (simp_all add: oversize_answer_def needs_quote_def list_ex_iff special_char_def field_limit_def)

lemma read_oversize:
  assumes "data_file w = Some (store_text [new_entry ''2'' oversize_answer [] [] [] []])"
  shows "fst (read_data w) = Inl CsvError"
proof -
  let ?row = "[''2'', oversize_answer, [], [], [], []]"
  let ?t = "store_text [new_entry ''2'' oversize_answer [] [] [] []]"
  have st: "?t = concat (map writerow [headers, ?row])"
    by (simp add: store_text_def record_row_def new_entry_def field_text_def)
  have two: "list_all (\<lambda>r. 2 \<le> length r) [headers, ?row]" by (simp add: length_headers)
  have u: "universal_newlines ?t = enc_row headers @ LF # (enc_row ?row @ [LF])"
    unfolding st rows_text [OF two] by simp
  have e2: "enc_field ''2'' = ''2''" "universal_newlines ''2'' = ''2''" "fits ''2''"
    by (simp_all add: enc_field_def needs_quote_def special_char_def fits_def field_limit_def)
  have eo: "enc_field oversize_answer = oversize_answer"
    using oversize_facts(1) by (simp add: enc_field_def)
  have er: "enc_row ?row @ [LF]
            = CHR ''2'' # COMMA # oversize_answer @ COMMA # (enc_row [[], [], [], []] @ [LF])"
    by (simp add: e2(1) eo)
  have "feed parse_reset (enc_row ?row @ [LF])
        = feed (at_field []) (CHR ''2'' # COMMA # oversize_answer @ COMMA # (enc_row [[], [], [], []] @ [LF]))"
    unfolding er by (rule feed_start) simp_all
  also have "\<dots> = feed (at_field []) (enc_field ''2'' @ COMMA # oversize_answer @ COMMA # (enc_row [[], [], [], []] @ [LF]))"
    by (simp only: e2(1) append_Cons append_Nil)
  also have "\<dots> = feed (at_field ([] @ [universal_newlines ''2'']))
                      (oversize_answer @ COMMA # (enc_row [[], [], [], []] @ [LF]))"
    using e2(3) by (rule feed_field_comma)
  also have "\<dots> = Inl CsvError"
    using oversize_facts by (rule feed_field_overflow)
  finally have "feed parse_reset (universal_newlines ?t) = Inl CsvError"
    unfolding u by (simp add: feed_header_then del: feed.simps)
  moreover have "universal_newlines ?t = [] \<or> last (universal_newlines ?t) = LF"
    unfolding st using two by (rule rows_text_end)
  ultimately have "csv_reader (readlines (universal_newlines ?t)) = Inl CsvError"
    using reader_rows_readlines [of "universal_newlines ?t" parse_reset] by (simp add: csv_reader_def)
  then show ?thesis using assms by (simp add: read_data_def)
qed

subsection \<open>The example store\<close>

lemma example_records_ok: "list_all is_record example_records"
  by (simp add: example_records_def is_record_new_entry)

lemma example_records_loadable: "list_all loadable example_records"
  by (simp add: example_records_def loadable_new_entry fits_def field_limit_def)

lemma example_read: "fst (read_data example_world) = Inr example_records"
proof -
  have "read_data example_world = (Inr (map nl_entry example_records), example_world)"
    using _ example_records_ok example_records_loadable
    by (rule read_data_store_text) (simp add: example_world_def)
  moreover have "map nl_entry example_records = example_records"
    by (simp add: example_records_def nl_new_entry)
  ultimately show ?thesis by simp
qed

lemma example_ids:
  "has_id q (new_entry k d ty a c ds) \<longleftrightarrow> q = k"
  by (auto simp: has_id_def new_entry_def dict_item_def)

lemma int_text_2: "int_text 2 = ''2''"
  by (simp add: int_text_def digits_of.simps digit_char_def)

lemma int_text_3: "int_text 3 = ''3''"
  by (simp add: int_text_def digits_of.simps digit_char_def)

lemma py_str_small: "0 \<le> i \<Longrightarrow> i < 10 \<Longrightarrow> py_str i = Inr [digit_char (nat i)]"
  by (simp add: py_str_def int_text_def digits_of.simps max_str_digits_def)

lemma example_stdin: "stdin example_world = [] # [] # ''150'' # [] # [] # [''x'']"
  by (simp add: example_world_def)

section \<open>The claims\<close>

lemma ones_value:
  "9 * foldl (\<lambda>a c. 10 * a + digit_val c) 0 (replicate n (CHR ''1'')) + 1 = (10::nat) ^ n"
proof (induction n)
  case 0
  then show ?case by simp
next
  case (Suc n)
  have "replicate (Suc n) (CHR ''1'') = replicate n (CHR ''1'') @ [CHR ''1'']"
    by (simp add: replicate_append_same)
  then show ?case using Suc by (simp add: digit_val_def del: replicate.simps)
qed

lemma ones_base10:
  assumes "0 < n"
  shows "base10 (replicate n (CHR ''1'')) = Some (int ((10 ^ n - 1) div 9))"
proof -
  let ?s = "replicate n (CHR ''1'')"
  let ?v = "foldl (\<lambda>a c. 10 * a + digit_val c) 0 ?s"
  have "9 * ?v + 1 = 10 ^ n" by (rule ones_value)
  then have "10 ^ n - 1 = 9 * ?v" by arith
  then have v: "(10 ^ n - 1) div 9 = ?v" by simp
  have "?s \<noteq> []" "list_all is_digit ?s" using assms by (simp_all add: list_all_iff is_digit_def)
  then have d: "decimal ?s = Some ?v" by (simp add: decimal_def)
  obtain m where "n = Suc m" using assms by (cases n) auto
  then have "?s = CHR ''1'' # replicate m (CHR ''1'')" by simp
  then show ?thesis using d v by (simp add: base10_def)
qed

lemma ones_digits:
  "0 < n \<Longrightarrow> replicate n (CHR ''1'') \<noteq> []" "list_all is_digit (replicate n (CHR ''1''))"
  by (simp_all add: list_all_iff is_digit_def)

lemma base10_long_number: "base10 long_number = Some (int ((10 ^ 4301 - 1) div 9))"
  unfolding long_number_def by (rule ones_base10) simp

lemma long_number_digits:
  "long_number \<noteq> []" "list_all is_digit long_number" "max_str_digits < length long_number"
  "filter is_digit long_number = long_number"
  by (simp_all add: long_number_def list_all_iff is_digit_def max_str_digits_def)

lemma py_int_base10_long:
  assumes "base10 s = Some n" and "max_str_digits < length (filter is_digit s)"
  shows "py_int (universal_newlines s) = None"
proof -
  obtain c cs where s: "s = c # cs" using assms(1) by (cases s) (auto simp: base10_def)
  show ?thesis
  proof (cases "c = CHR ''-''")
    case True
    then obtain m where m: "decimal cs = Some m"
      using assms(1) s by (auto simp: base10_def)
    have dg: "cs \<noteq> []" "list_all is_digit cs" using decimal_props [OF m] .
    have "\<not> is_digit (CHR ''-'')" by (simp add: is_digit_def)
    then have "max_str_digits < length cs"
      using assms(2) s True dg(2) by (simp add: filter_digits)
    then show ?thesis
      using py_int_minus_digits [OF dg] int_body_too_long [OF dg(2)] s True by simp
  next
    case False
    then obtain m where m: "decimal s = Some m"
      using assms(1) s by (auto simp: base10_def)
    have dg: "s \<noteq> []" "list_all is_digit s" using decimal_props [OF m] .
    have "max_str_digits < length s" using assms(2) dg(2) by (simp add: filter_digits)
    then show ?thesis using dg by (rule py_int_too_long [rotated 2])
  qed
qed

text \<open>
  C7. \<^verbatim>\<open>load_last_id\<close> returns 1 when the counter file is absent, without an error, and
  returns the integer written in the file when the file holds a base-10 integer (an
  optional minus sign and decimal digits) of at most 4300 digits. On a base-10 integer of
  more digits \<^verbatim>\<open>int\<close> raises \<^verbatim>\<open>ValueError\<close>, which is not caught.
\<close>

theorem load_last_id_absent_or_short_decimal:
  "(last_id_file w = None \<longrightarrow> load_last_id w = (Inr 1, w)) \<and>
   (last_id_file w = Some s \<and> base10 s = Some n \<and>
      length (filter is_digit s) \<le> max_str_digits \<longrightarrow> load_last_id w = (Inr n, w)) \<and>
   (last_id_file w = Some s \<and> base10 s = Some n \<and>
      max_str_digits < length (filter is_digit s) \<longrightarrow> load_last_id w = (Inl ValueError, w))"
  by (auto simp: load_last_id_def py_int_base10 py_int_base10_long)

theorem load_last_id_absent_or_short_decimal_witness:
  "last_id_file fresh_world = None \<and> load_last_id fresh_world = (Inr 1, fresh_world) \<and>
   last_id_file example_world = Some ''3'' \<and> base10 ''3'' = Some 3 \<and>
   length (filter is_digit ''3'') \<le> max_str_digits \<and>
   load_last_id example_world = (Inr 3, example_world) \<and>
   last_id_file (example_world\<lparr>last_id_file := Some long_number\<rparr>) = Some long_number \<and>
   base10 long_number = Some (int ((10 ^ 4301 - 1) div 9)) \<and>
   max_str_digits < length (filter is_digit long_number) \<and>
   load_last_id (example_world\<lparr>last_id_file := Some long_number\<rparr>)
     = (Inl ValueError, example_world\<lparr>last_id_file := Some long_number\<rparr>)"
proof -
  have a: "last_id_file fresh_world = None" by (simp add: fresh_world_def)
  have b: "last_id_file example_world = Some ''3''" by (simp add: example_world_def)
  have c: "base10 ''3'' = Some 3"
    by (simp add: base10_def decimal_def is_digit_def digit_val_def)
  have d: "length (filter is_digit ''3'') \<le> max_str_digits"
    by (simp add: is_digit_def max_str_digits_def)
  have e: "last_id_file (example_world\<lparr>last_id_file := Some long_number\<rparr>) = Some long_number"
    by simp
  have f: "max_str_digits < length (filter is_digit long_number)"
    using long_number_digits(3,4) by simp
  have 1: "load_last_id fresh_world = (Inr 1, fresh_world)"
    using load_last_id_absent_or_short_decimal [of fresh_world "''3''" 3] a by blast
  have 2: "load_last_id example_world = (Inr 3, example_world)"
    using load_last_id_absent_or_short_decimal [of example_world "''3''" 3] b c d by blast
  have 3: "load_last_id (example_world\<lparr>last_id_file := Some long_number\<rparr>)
           = (Inl ValueError, example_world\<lparr>last_id_file := Some long_number\<rparr>)"
    using load_last_id_absent_or_short_decimal
      [of "example_world\<lparr>last_id_file := Some long_number\<rparr>" long_number
          "int ((10 ^ 4301 - 1) div 9)"]
      e base10_long_number f
    by blast
  show ?thesis
    by (intro conjI) (rule a 1 b c d 2 e base10_long_number f 3)+
qed

text \<open>
  C7, as the claim has it, without the bound on the digits: a counter file of 4301 digits
  \<^verbatim>\<open>1\<close> holds a base-10 integer, and \<^verbatim>\<open>load_last_id\<close> ends with a \<^verbatim>\<open>ValueError\<close> on it.
\<close>

theorem long_counter_not_loaded:
  "last_id_file (fresh_world\<lparr>last_id_file := Some long_number\<rparr>) = Some long_number \<and>
   base10 long_number = Some (int ((10 ^ 4301 - 1) div 9)) \<and>
   load_last_id (fresh_world\<lparr>last_id_file := Some long_number\<rparr>)
     = (Inl ValueError, fresh_world\<lparr>last_id_file := Some long_number\<rparr>)"
proof -
  have "py_int (universal_newlines long_number) = None"
    using long_number_digits(1,2,3) by (rule py_int_too_long)
  then have "load_last_id (fresh_world\<lparr>last_id_file := Some long_number\<rparr>)
     = (Inl ValueError, fresh_world\<lparr>last_id_file := Some long_number\<rparr>)"
    by (simp add: load_last_id_def)
  moreover have "last_id_file (fresh_world\<lparr>last_id_file := Some long_number\<rparr>) = Some long_number"
    by simp
  ultimately show ?thesis using base10_long_number by (intro conjI)
qed

text \<open>
  C8. When the counter file exists and \<^verbatim>\<open>int\<close> rejects its text, \<^verbatim>\<open>load_last_id\<close> ends
  with a \<^verbatim>\<open>ValueError\<close> (only the missing file is caught), and so do \<^verbatim>\<open>get_next_id\<close>
  and \<^verbatim>\<open>add_entry\<close>, before anything is asked or written.
\<close>

theorem malformed_counter_is_fatal:
  assumes "last_id_file w = Some s" and "py_int (universal_newlines s) = None"
  shows "load_last_id w = (Inl ValueError, w) \<and> get_next_id w = (Inl ValueError, w) \<and>
         add_entry w = (Inl ValueError, w)"
proof -
  have l: "load_last_id w = (Inl ValueError, w)" using assms by (simp add: load_last_id_def)
  then have g: "get_next_id w = (Inl ValueError, w)" by (simp add: get_next_id_def and_then_def)
  then have "add_entry w = (Inl ValueError, w)" by (simp add: add_entry_def and_then_def)
  then show ?thesis using l g by simp
qed

theorem malformed_counter_is_fatal_witness:
  "py_int (universal_newlines ''abc'') = None \<and>
   add_entry (example_world\<lparr>last_id_file := Some ''abc''\<rparr>)
     = (Inl ValueError, example_world\<lparr>last_id_file := Some ''abc''\<rparr>) \<and>
   py_int (universal_newlines []) = None \<and>
   add_entry (example_world\<lparr>last_id_file := Some []\<rparr>)
     = (Inl ValueError, example_world\<lparr>last_id_file := Some []\<rparr>) \<and>
   py_int (universal_newlines [CHR 0x1F, CHR ''1'', CHR ''2'']) = None \<and>
   add_entry (example_world\<lparr>last_id_file := Some [CHR 0x1F, CHR ''1'', CHR ''2'']\<rparr>)
     = (Inl ValueError, example_world\<lparr>last_id_file := Some [CHR 0x1F, CHR ''1'', CHR ''2'']\<rparr>) \<and>
   py_int (universal_newlines [CHR ''5'', CHR 0x1C]) = None \<and>
   add_entry (example_world\<lparr>last_id_file := Some [CHR ''5'', CHR 0x1C]\<rparr>)
     = (Inl ValueError, example_world\<lparr>last_id_file := Some [CHR ''5'', CHR 0x1C]\<rparr>) \<and>
   py_int (universal_newlines ''1.5'') = None \<and>
   add_entry (example_world\<lparr>last_id_file := Some ''1.5''\<rparr>)
     = (Inl ValueError, example_world\<lparr>last_id_file := Some ''1.5''\<rparr>)"
proof -
  have a: "last_id_file (example_world\<lparr>last_id_file := Some s\<rparr>) = Some s" for s by simp
  have b1: "py_int (universal_newlines ''abc'') = None"
    by (simp add: py_int_def py_strip_def is_space_def int_body_def is_digit_def)
  have b2: "py_int (universal_newlines []) = None"
    by (simp add: py_int_def py_strip_def)
  have b3: "py_int (universal_newlines [CHR 0x1F, CHR ''1'', CHR ''2'']) = None"
    by (simp add: py_int_def py_strip_def is_space_def int_body_def is_digit_def)
  have b4: "py_int (universal_newlines [CHR ''5'', CHR 0x1C]) = None"
    by (simp add: py_int_def py_strip_def is_space_def int_body_def is_digit_def
        max_str_digits_def)
  have b5: "py_int (universal_newlines ''1.5'') = None"
    by (simp add: py_int_def py_strip_def is_space_def int_body_def is_digit_def
        max_str_digits_def)
  show ?thesis
    using malformed_counter_is_fatal [OF a b1] malformed_counter_is_fatal [OF a b2]
      malformed_counter_is_fatal [OF a b3] malformed_counter_is_fatal [OF a b4]
      malformed_counter_is_fatal [OF a b5] b1 b2 b3 b4 b5
    by (intro conjI) blast+
qed

lemma write_then_read:
  assumes "rs \<noteq> []" and "list_all is_record rs" and "list_all loadable rs"
  shows "fst (read_data (snd (write_data rs w))) = Inr (map nl_entry rs)"
proof -
  have "data_file (snd (write_data rs w)) = Some (store_text rs)"
    using write_data_records [OF assms(1,2)] by simp
  then have "read_data (snd (write_data rs w)) = (Inr (map nl_entry rs), snd (write_data rs w))"
    using assms(2,3) by (rule read_data_store_text)
  then show ?thesis by simp
qed

lemma example_text:
  "writerow headers @ concat (map (\<lambda>e. writerow (record_row e)) example_records) =
     ''id,date,type,amount,category,description'' @ [CR, LF] @
     ''2,2024-01-01,income,100,salary,Jan'' @ [CR, LF] @
     ''3,2024-02-01,expense,40,food,lunch'' @ [CR, LF] @
     ''2,2024-03-01,income,7,misc,again'' @ [CR, LF]"
  by (simp add: example_records_def new_entry_def record_row_def field_text_def headers_def
      writerow_def join_append_def needs_quote_def special_char_def)

lemma example_nl: "map nl_entry example_records = example_records"
  by (simp add: example_records_def nl_new_entry)

text \<open>
  C5. \<^verbatim>\<open>write_data\<close> on an empty list ends with an \<^verbatim>\<open>IndexError\<close> (the file, already
  opened for writing, is left empty); on a non-empty list of records it succeeds and the
  file holds the header line followed by one line for each record, in order. When every
  value is within the reader's field limit, \<^verbatim>\<open>read_data\<close> then loads these records, in
  that order, newlines translated.
\<close>

theorem write_data_needs_a_record:
  "write_data [] w = (Inl IndexError, w\<lparr>data_file := Some []\<rparr>) \<and>
   (rs \<noteq> [] \<and> list_all is_record rs \<longrightarrow>
      write_data rs w =
        (Inr (), w\<lparr>data_file :=
           Some (writerow headers @ concat (map (\<lambda>e. writerow (record_row e)) rs))\<rparr>)) \<and>
   (rs \<noteq> [] \<and> list_all is_record rs \<and> list_all loadable rs \<longrightarrow>
      fst (read_data (snd (write_data rs w))) = Inr (map nl_entry rs))"
  using write_data_records [of rs w] write_then_read [of rs w]
  by (simp add: write_data_def store_text_def)

theorem write_data_needs_a_record_witness:
  "example_records \<noteq> [] \<and> list_all is_record example_records \<and>
   list_all loadable example_records \<and>
   write_data example_records fresh_world =
     (Inr (), fresh_world\<lparr>data_file := Some (
        ''id,date,type,amount,category,description'' @ [CR, LF] @
        ''2,2024-01-01,income,100,salary,Jan'' @ [CR, LF] @
        ''3,2024-02-01,expense,40,food,lunch'' @ [CR, LF] @
        ''2,2024-03-01,income,7,misc,again'' @ [CR, LF])\<rparr>) \<and>
   fst (read_data (snd (write_data example_records fresh_world))) = Inr example_records"
proof -
  have a: "example_records \<noteq> []" by (simp add: example_records_def)
  note th = write_data_needs_a_record [of fresh_world example_records]
  have 1: "write_data example_records fresh_world =
     (Inr (), fresh_world\<lparr>data_file := Some (
        ''id,date,type,amount,category,description'' @ [CR, LF] @
        ''2,2024-01-01,income,100,salary,Jan'' @ [CR, LF] @
        ''3,2024-02-01,expense,40,food,lunch'' @ [CR, LF] @
        ''2,2024-03-01,income,7,misc,again'' @ [CR, LF])\<rparr>)"
    using th [THEN conjunct2, THEN conjunct1] a example_records_ok
    unfolding example_text by blast
  have 2: "fst (read_data (snd (write_data example_records fresh_world))) = Inr example_records"
    using th [THEN conjunct2, THEN conjunct2] a example_records_ok example_records_loadable
    unfolding example_nl by blast
  show ?thesis using a example_records_ok example_records_loadable 1 2 by (intro conjI)
qed

lemma first_with_id_find:
  "list_all is_record rs \<Longrightarrow> first_with_id q rs = Inr (find (has_id q) rs)"
proof (induction rs)
  case Nil
  then show ?case by simp
next
  case (Cons x rs)
  then obtain v where "dict_item x (Str ''id'') = Inr (Str v)" using is_record_id by auto
  then show ?case using Cons by (auto simp: has_id_def)
qed

text \<open>
  C3. \<^verbatim>\<open>search_by_id\<close> returns the first record of the loaded store whose id is the
  query, compared as strings, and \<^verbatim>\<open>None\<close> when no record has that id; the files are
  left as they were.
\<close>

theorem search_by_id_first_match:
  assumes "fst (read_data w) = Inr rs" and "list_all is_record rs"
  shows "search_by_id q w = (Inr (find (has_id q) rs), w) \<and>
         (find (has_id q) rs = None \<longleftrightarrow> \<not> list_ex (has_id q) rs)"
  using search_by_id_eq [OF assms(1)] first_with_id_find [OF assms(2)]
  by (auto simp: find_None_iff list_ex_iff)

theorem search_by_id_first_match_witness:
  "fst (read_data example_world) = Inr example_records \<and> list_all is_record example_records \<and>
   search_by_id ''2'' example_world
     = (Inr (Some (new_entry ''2'' ''2024-01-01'' ''income'' ''100'' ''salary'' ''Jan'')), example_world) \<and>
   search_by_id ''02'' example_world = (Inr None, example_world)"
proof -
  have a: "find (has_id ''2'') example_records
           = Some (new_entry ''2'' ''2024-01-01'' ''income'' ''100'' ''salary'' ''Jan'')"
    by (simp add: example_records_def example_ids)
  have b: "find (has_id ''02'') example_records = None"
    by (simp add: example_records_def example_ids)
  show ?thesis
    using search_by_id_first_match [OF example_read example_records_ok, of "''2''"]
      search_by_id_first_match [OF example_read example_records_ok, of "''02''"]
      example_read example_records_ok a b
    by simp
qed

text \<open>
  C6. When no record of the store has the id, \<^verbatim>\<open>edit_entry\<close> prints that the id was not
  found, lists the ids, and writes nothing: the store file and the counter file are as
  before, and nothing is read from the prompts.
\<close>

theorem edit_entry_unknown_id:
  assumes "fst (read_data w) = Inr rs" and "list_all is_record rs"
    and "\<not> list_ex (has_id q) rs"
  shows "edit_entry q w =
           (Inr (), w\<lparr>stdout := stdout w @ No_such_id # All_ids_heading #
                         map (\<lambda>x. Id_line (dict_get x (Str ''id'') NoneVal)) rs\<rparr>) \<and>
         data_file (snd (edit_entry q w)) = data_file w \<and>
         last_id_file (snd (edit_entry q w)) = last_id_file w"
proof -
  have "list_all (\<lambda>x. \<not> has_id q x) rs" using assms(3) by (simp add: list_all_iff list_ex_iff)
  from edit_entry_missing [OF assms(1,2) this] show ?thesis by simp
qed

theorem edit_entry_unknown_id_witness:
  "fst (read_data example_world) = Inr example_records \<and> list_all is_record example_records \<and>
   \<not> list_ex (has_id ''99'') example_records \<and>
   edit_entry ''99'' example_world =
     (Inr (), example_world\<lparr>stdout := stdout example_world @ No_such_id # All_ids_heading #
        map (\<lambda>x. Id_line (dict_get x (Str ''id'') NoneVal)) example_records\<rparr>) \<and>
   data_file (snd (edit_entry ''99'' example_world)) = data_file example_world \<and>
   last_id_file (snd (edit_entry ''99'' example_world)) = last_id_file example_world"
proof -
  have a: "\<not> list_ex (has_id ''99'') example_records"
    by (simp add: example_records_def example_ids)
  show ?thesis
    using edit_entry_unknown_id [OF example_read example_records_ok a]
      example_read example_records_ok a
    by simp
qed

lemma un_Nil_iff: "universal_newlines s = [] \<longleftrightarrow> s = []"
  by (induction s rule: universal_newlines.induct) auto

lemma override_nl:
  "nl_val old = old \<Longrightarrow> nl_val (override new old) = override (universal_newlines new) old"
  by (simp add: override_def un_Nil_iff)

lemma nl_get:
  assumes "distinct (map fst e)" and "nl_entry e = e"
  shows "nl_val (dict_get e k NoneVal) = dict_get e k NoneVal"
proof (cases "map_of e k")
  case None
  then show ?thesis by (simp add: dict_get_def)
next
  case (Some v)
  then have "(k, v) \<in> set e" by (rule map_of_SomeD)
  then have "(k, nl_val v) \<in> set (nl_entry e)" by (force simp: nl_entry_def)
  then have "(k, nl_val v) \<in> set e" using assms(2) by simp
  then have "map_of e k = Some (nl_val v)" using assms(1) by simp
  then have "nl_val v = v" using Some by simp
  then show ?thesis using Some by (simp add: dict_get_def)
qed

lemma nl_edited:
  assumes "is_record e" and "nl_entry e = e"
  shows "nl_entry (edited e d t a c ds)
         = edited e (universal_newlines d) (universal_newlines t) (universal_newlines a)
             (universal_newlines c) (universal_newlines ds)"
proof -
  have "distinct (map fst e)" using assms(1) headers_distinct by (simp add: is_record_def)
  then have g: "nl_val (dict_get e k NoneVal) = dict_get e k NoneVal" for k
    using assms(2) by (rule nl_get)
  show ?thesis
    unfolding edited_def nl_entry_def by (simp add: override_nl g)
qed

lemma edited_blank: "is_record e \<Longrightarrow> edited e [] [] [] [] [] = e"
  by (erule is_record_cases) (simp add: edited_def override_def dict_get_def)

lemma loadable_edited:
  assumes "is_record e" and "loadable e" and "list_all fits [d, t, a, c, ds]"
  shows "loadable (edited e d t a c ds)"
  using assms(1)
proof (rule is_record_cases)
  fix v0 v1 v2 v3 v4 v5
  assume e: "e = [(Str ''id'', Str v0), (Str ''date'', Str v1), (Str ''type'', Str v2),
          (Str ''amount'', Str v3), (Str ''category'', Str v4), (Str ''description'', Str v5)]"
  show ?thesis
    using assms(2,3) unfolding e
    by (simp add: loadable_def record_row_def edited_def override_def dict_get_def field_text_def)
qed

lemma first_hit:
  assumes "list_ex (has_id q) rs"
  obtains pre e post where "rs = pre @ e # post" "list_all (\<lambda>x. \<not> has_id q x) pre" "has_id q e"
proof -
  have "\<exists>x\<in>set rs. has_id q x" using assms by (simp add: list_ex_iff)
  from split_list_first_prop [OF this] show ?thesis
    using that by (auto simp: list_all_iff)
qed

lemma read_after_edit:
  assumes "fst (read_data w) = Inr (pre @ e # post)" and "list_all is_record (pre @ e # post)"
    and "data_file w' = Some (store_text (pre @ e' # post))" and "is_record e'"
    and "loadable e'"
  shows "fst (read_data w') = Inr (pre @ nl_entry e' # post)"
proof -
  have 1: "list_all is_record (pre @ e' # post)" using assms(2,4) by simp
  have "list_all loadable (pre @ e # post)" using assms(1,2) by (rule read_data_all_loadable)
  then have 2: "list_all loadable (pre @ e' # post)" using assms(5) by simp
  have "read_data w' = (Inr (map nl_entry (pre @ e' # post)), w')"
    using assms(3) 1 2 by (rule read_data_store_text)
  moreover have "map nl_entry pre = pre" "map nl_entry post = post"
    using read_data_nl [OF assms(1)] by simp_all
  ultimately show ?thesis by simp
qed

lemma reread_after_edit:
  assumes rd: "fst (read_data w) = Inr (pre @ e # post)"
    and recs: "list_all is_record (pre @ e # post)"
    and first: "list_all (\<lambda>x. \<not> has_id q x) pre" and hit: "has_id q e"
    and inp: "stdin w = d # t # a # c # ds # rest"
    and fit: "list_all fits [d, t, a, c, ds]"
  shows "fst (read_data (snd (edit_entry q w)))
      = Inr (pre @ edited e (universal_newlines d) (universal_newlines t)
               (universal_newlines a) (universal_newlines c) (universal_newlines ds) # post)"
proof -
  have e: "is_record e" using recs by simp
  have "e \<in> set (pre @ e # post)" by simp
  then have le: "loadable e" using rd e by (intro read_data_loadable [OF rd])
  have ed: "data_file (snd (edit_entry q w))
            = Some (store_text (pre @ edited e d t a c ds # post))"
    using edit_entry_found [OF rd recs first hit inp] by simp
  have "map nl_entry (pre @ e # post) = pre @ e # post" using rd by (rule read_data_nl)
  then have ne: "nl_entry e = e" by simp
  have "fst (read_data (snd (edit_entry q w)))
        = Inr (pre @ nl_entry (edited e d t a c ds) # post)"
    using rd recs ed is_record_edited [OF e] loadable_edited [OF e le fit]
    by (rule read_after_edit)
  then show ?thesis by (simp add: nl_edited [OF e ne])
qed

text \<open>
  C2. When the id is in the store, \<^verbatim>\<open>edit_entry\<close> rewrites the store with the first record
  holding that id replaced, at its position, by the record \<open>edited\<close>: the id as it was,
  every other field holding its answer, or its old value on a blank answer. The records
  before and after it are written back as they were loaded. When the five answers are
  within the reader's field limit, the store loads again as the same sequence with that
  one record replaced (an answer comes back as the reader returns it, newlines
  translated). With five blank answers the record itself is unchanged. The counter file
  is not touched.
\<close>

theorem edit_entry_overrides:
  assumes "fst (read_data w) = Inr rs" and "list_all is_record rs"
    and "list_ex (has_id q) rs"
    and "stdin w = d # t # a # c # ds # rest"
  shows "\<exists>pre e post.
           rs = pre @ e # post \<and> list_all (\<lambda>x. \<not> has_id q x) pre \<and> has_id q e \<and>
           edit_entry q w =
             (Inr (), w\<lparr>data_file := Some (store_text (pre @ edited e d t a c ds # post)),
                         stdin := rest,
                         stdout := stdout w @ [Current_data e, Prompt Ask_new_date,
                           Prompt Ask_new_type, Prompt Ask_new_amount, Prompt Ask_new_category,
                           Prompt Ask_new_description, Entry_updated]\<rparr>) \<and>
           (list_all fits [d, t, a, c, ds] \<longrightarrow>
              fst (read_data (snd (edit_entry q w)))
                = Inr (pre @ edited e (universal_newlines d) (universal_newlines t)
                         (universal_newlines a) (universal_newlines c) (universal_newlines ds) # post)) \<and>
           (d = [] \<and> t = [] \<and> a = [] \<and> c = [] \<and> ds = [] \<longrightarrow> edited e d t a c ds = e)"
proof -
  obtain pre e post where rs: "rs = pre @ e # post"
    and first: "list_all (\<lambda>x. \<not> has_id q x) pre" and hit: "has_id q e"
    using first_hit [OF assms(3)] by blast
  have rd: "fst (read_data w) = Inr (pre @ e # post)" using assms(1) rs by simp
  have recs: "list_all is_record (pre @ e # post)" using assms(2) rs by simp
  then have e: "is_record e" by simp
  have ed: "edit_entry q w =
             (Inr (), w\<lparr>data_file := Some (store_text (pre @ edited e d t a c ds # post)),
                         stdin := rest,
                         stdout := stdout w @ [Current_data e, Prompt Ask_new_date,
                           Prompt Ask_new_type, Prompt Ask_new_amount, Prompt Ask_new_category,
                           Prompt Ask_new_description, Entry_updated]\<rparr>)"
    using rd recs first hit assms(4) by (rule edit_entry_found)
  have reread: "fst (read_data (snd (edit_entry q w)))
      = Inr (pre @ edited e (universal_newlines d) (universal_newlines t)
               (universal_newlines a) (universal_newlines c) (universal_newlines ds) # post)"
    if "list_all fits [d, t, a, c, ds]"
    using rd recs first hit assms(4) that by (rule reread_after_edit)
  show ?thesis
    using rs first hit ed reread edited_blank [OF e] by blast
qed

lemma example_fits: "list_all fits [[], [], ''150'', [], []]"
  by (simp add: fits_def field_limit_def)

lemma example_text_edited:
  "store_text [new_entry ''2'' ''2024-01-01'' ''income'' ''150'' ''salary'' ''Jan'',
               new_entry ''3'' ''2024-02-01'' ''expense'' ''40'' ''food'' ''lunch'',
               new_entry ''2'' ''2024-03-01'' ''income'' ''7'' ''misc'' ''again''] =
     ''id,date,type,amount,category,description'' @ [CR, LF] @
     ''2,2024-01-01,income,150,salary,Jan'' @ [CR, LF] @
     ''3,2024-02-01,expense,40,food,lunch'' @ [CR, LF] @
     ''2,2024-03-01,income,7,misc,again'' @ [CR, LF]"
  by (simp add: store_text_def new_entry_def record_row_def field_text_def headers_def
      writerow_def join_append_def needs_quote_def special_char_def)

lemma example_edited:
  "edited (new_entry ''2'' ''2024-01-01'' ''income'' ''100'' ''salary'' ''Jan'') [] [] ''150'' [] []
   = new_entry ''2'' ''2024-01-01'' ''income'' ''150'' ''salary'' ''Jan''"
  by (simp add: edited_def new_entry_def dict_get_def override_def)

lemma example_first:
  assumes "example_records = pre @ e # post" and "list_all (\<lambda>x. \<not> has_id ''2'' x) pre"
    and "has_id ''2'' e"
  shows "pre = []" "e = new_entry ''2'' ''2024-01-01'' ''income'' ''100'' ''salary'' ''Jan''"
    "post = [new_entry ''3'' ''2024-02-01'' ''expense'' ''40'' ''food'' ''lunch'',
             new_entry ''2'' ''2024-03-01'' ''income'' ''7'' ''misc'' ''again'']"
proof -
  show p: "pre = []"
  proof (cases pre)
    case Nil
    then show ?thesis .
  next
    case (Cons x xs)
    then have "x = new_entry ''2'' ''2024-01-01'' ''income'' ''100'' ''salary'' ''Jan''"
      using assms(1) by (simp add: example_records_def)
    then have "has_id ''2'' x" by (simp add: example_ids)
    then show ?thesis using assms(2) Cons by simp
  qed
  show "e = new_entry ''2'' ''2024-01-01'' ''income'' ''100'' ''salary'' ''Jan''"
    "post = [new_entry ''3'' ''2024-02-01'' ''expense'' ''40'' ''food'' ''lunch'',
             new_entry ''2'' ''2024-03-01'' ''income'' ''7'' ''misc'' ''again'']"
    using assms(1) p by (simp_all add: example_records_def)
qed

lemma example_store_text:
  "store_text example_records =
     ''id,date,type,amount,category,description'' @ [CR, LF] @
     ''2,2024-01-01,income,100,salary,Jan'' @ [CR, LF] @
     ''3,2024-02-01,expense,40,food,lunch'' @ [CR, LF] @
     ''2,2024-03-01,income,7,misc,again'' @ [CR, LF]"
  unfolding store_text_def by (rule example_text)

theorem edit_entry_overrides_witness:
  "fst (read_data example_world) = Inr example_records \<and> list_all is_record example_records \<and>
   list_ex (has_id ''2'') example_records \<and>
   stdin example_world = [] # [] # ''150'' # [] # [] # [''x''] \<and>
   list_all fits [[], [], ''150'', [], []] \<and>
   edit_entry ''2'' example_world =
     (Inr (), example_world\<lparr>
        data_file := Some (
          ''id,date,type,amount,category,description'' @ [CR, LF] @
          ''2,2024-01-01,income,150,salary,Jan'' @ [CR, LF] @
          ''3,2024-02-01,expense,40,food,lunch'' @ [CR, LF] @
          ''2,2024-03-01,income,7,misc,again'' @ [CR, LF]),
        stdin := [''x''],
        stdout := stdout example_world @
          [Current_data (new_entry ''2'' ''2024-01-01'' ''income'' ''100'' ''salary'' ''Jan''),
           Prompt Ask_new_date, Prompt Ask_new_type, Prompt Ask_new_amount,
           Prompt Ask_new_category, Prompt Ask_new_description, Entry_updated]\<rparr>) \<and>
   fst (read_data (snd (edit_entry ''2'' example_world)))
     = Inr [new_entry ''2'' ''2024-01-01'' ''income'' ''150'' ''salary'' ''Jan'',
            new_entry ''3'' ''2024-02-01'' ''expense'' ''40'' ''food'' ''lunch'',
            new_entry ''2'' ''2024-03-01'' ''income'' ''7'' ''misc'' ''again''] \<and>
   list_ex (has_id ''3'') example_records \<and>
   stdin (example_world\<lparr>stdin := [[], [], [], [], []]\<rparr>) = [] # [] # [] # [] # [] # [] \<and>
   data_file (snd (edit_entry ''3'' (example_world\<lparr>stdin := [[], [], [], [], []]\<rparr>)))
     = Some (
          ''id,date,type,amount,category,description'' @ [CR, LF] @
          ''2,2024-01-01,income,100,salary,Jan'' @ [CR, LF] @
          ''3,2024-02-01,expense,40,food,lunch'' @ [CR, LF] @
          ''2,2024-03-01,income,7,misc,again'' @ [CR, LF]) \<and>
   fst (read_data (snd (edit_entry ''3'' (example_world\<lparr>stdin := [[], [], [], [], []]\<rparr>))))
     = Inr example_records"
proof -
  have a: "list_ex (has_id ''2'') example_records"
    by (simp add: example_records_def example_ids)
  have u: "universal_newlines [] = []" "universal_newlines ''150'' = ''150''" by simp_all
  obtain pre e post where r: "example_records = pre @ e # post"
      "list_all (\<lambda>x. \<not> has_id ''2'' x) pre" "has_id ''2'' e"
      "edit_entry ''2'' example_world =
        (Inr (), example_world\<lparr>
           data_file := Some (store_text (pre @ edited e [] [] ''150'' [] [] # post)),
           stdin := [''x''],
           stdout := stdout example_world @ [Current_data e, Prompt Ask_new_date,
             Prompt Ask_new_type, Prompt Ask_new_amount, Prompt Ask_new_category,
             Prompt Ask_new_description, Entry_updated]\<rparr>)"
      "list_all fits [[], [], ''150'', [], []] \<longrightarrow>
         fst (read_data (snd (edit_entry ''2'' example_world)))
           = Inr (pre @ edited e (universal_newlines []) (universal_newlines [])
                    (universal_newlines ''150'') (universal_newlines []) (universal_newlines []) # post)"
    using edit_entry_overrides [OF example_read example_records_ok a example_stdin] by blast
  note f = example_first [OF r(1,2,3)]
  have 1: "edit_entry ''2'' example_world =
     (Inr (), example_world\<lparr>
        data_file := Some (
          ''id,date,type,amount,category,description'' @ [CR, LF] @
          ''2,2024-01-01,income,150,salary,Jan'' @ [CR, LF] @
          ''3,2024-02-01,expense,40,food,lunch'' @ [CR, LF] @
          ''2,2024-03-01,income,7,misc,again'' @ [CR, LF]),
        stdin := [''x''],
        stdout := stdout example_world @
          [Current_data (new_entry ''2'' ''2024-01-01'' ''income'' ''100'' ''salary'' ''Jan''),
           Prompt Ask_new_date, Prompt Ask_new_type, Prompt Ask_new_amount,
           Prompt Ask_new_category, Prompt Ask_new_description, Entry_updated]\<rparr>)"
    using r(4) unfolding f example_edited append_Nil example_text_edited .
  have 2: "fst (read_data (snd (edit_entry ''2'' example_world)))
     = Inr [new_entry ''2'' ''2024-01-01'' ''income'' ''150'' ''salary'' ''Jan'',
            new_entry ''3'' ''2024-02-01'' ''expense'' ''40'' ''food'' ''lunch'',
            new_entry ''2'' ''2024-03-01'' ''income'' ''7'' ''misc'' ''again'']"
    using r(5) example_fits unfolding f u example_edited append_Nil by blast
  let ?w = "example_world\<lparr>stdin := [[], [], [], [], []]\<rparr>"
  have rd: "fst (read_data ?w) = Inr example_records"
    using read_data_file [of ?w example_world] example_read by simp
  have b: "list_ex (has_id ''3'') example_records"
    by (simp add: example_records_def example_ids)
  have inp: "stdin ?w = [] # [] # [] # [] # [] # []" by simp
  have blank: "list_all fits [[], [], [], [], []]" by (simp add: fits_def)
  obtain pre' e' post' where s: "example_records = pre' @ e' # post'"
      "edit_entry ''3'' ?w =
        (Inr (), ?w\<lparr>
           data_file := Some (store_text (pre' @ edited e' [] [] [] [] [] # post')),
           stdin := [],
           stdout := stdout ?w @ [Current_data e', Prompt Ask_new_date,
             Prompt Ask_new_type, Prompt Ask_new_amount, Prompt Ask_new_category,
             Prompt Ask_new_description, Entry_updated]\<rparr>)"
      "list_all fits [[], [], [], [], []] \<longrightarrow>
         fst (read_data (snd (edit_entry ''3'' ?w)))
           = Inr (pre' @ edited e' (universal_newlines []) (universal_newlines [])
                    (universal_newlines []) (universal_newlines []) (universal_newlines []) # post')"
      "([]::string) = [] \<and> ([]::string) = [] \<and> ([]::string) = [] \<and> ([]::string) = [] \<and>
         ([]::string) = [] \<longrightarrow> edited e' [] [] [] [] [] = e'"
    using edit_entry_overrides [OF rd example_records_ok b inp] by blast
  have same: "edited e' [] [] [] [] [] = e'" using s(4) by simp
  have 3: "data_file (snd (edit_entry ''3'' ?w)) = Some (
          ''id,date,type,amount,category,description'' @ [CR, LF] @
          ''2,2024-01-01,income,100,salary,Jan'' @ [CR, LF] @
          ''3,2024-02-01,expense,40,food,lunch'' @ [CR, LF] @
          ''2,2024-03-01,income,7,misc,again'' @ [CR, LF])"
    using s(2) unfolding same s(1) [symmetric] example_store_text by simp
  have 4: "fst (read_data (snd (edit_entry ''3'' ?w))) = Inr example_records"
    using s(3) blank unfolding u same s(1) [symmetric] by blast
  show ?thesis
    using example_read example_records_ok a example_stdin example_fits 1 2 b inp 3 4
    by (intro conjI)
qed

text \<open>
  C9. When two or more records hold the id, \<^verbatim>\<open>edit_entry\<close> changes the first of them only:
  the sequence written to the store has the same length, the edited record at the
  position of the first match, and at every other position, the later matches among
  them, the record that was there. When the five answers are within the reader's field
  limit, the store loads again as that sequence, the answers with their newlines
  translated.
\<close>

theorem edit_entry_duplicate_ids:
  assumes "fst (read_data w) = Inr (pre @ e # post)"
    and "list_all is_record (pre @ e # post)"
    and "list_all (\<lambda>x. \<not> has_id q x) pre" and "has_id q e"
    and "list_ex (has_id q) post"
    and "stdin w = d # t # a # c # ds # rest"
  shows "\<exists>rs'. fst (edit_entry q w) = Inr () \<and>
           data_file (snd (edit_entry q w)) = Some (store_text rs') \<and>
           length rs' = length (pre @ e # post) \<and>
           rs' ! length pre = edited e d t a c ds \<and>
           (\<forall>j < length rs'. j \<noteq> length pre \<longrightarrow> rs' ! j = (pre @ e # post) ! j) \<and>
           (list_all fits [d, t, a, c, ds] \<longrightarrow>
              fst (read_data (snd (edit_entry q w)))
                = Inr (rs'[length pre := edited e (universal_newlines d) (universal_newlines t)
                         (universal_newlines a) (universal_newlines c) (universal_newlines ds)]))"
proof -
  let ?e' = "edited e (universal_newlines d) (universal_newlines t)
               (universal_newlines a) (universal_newlines c) (universal_newlines ds)"
  let ?rs' = "pre @ edited e d t a c ds # post"
  have ed: "fst (edit_entry q w) = Inr ()" "data_file (snd (edit_entry q w)) = Some (store_text ?rs')"
    using edit_entry_found [OF assms(1-4,6)] by simp_all
  have r: "fst (read_data (snd (edit_entry q w))) = Inr (?rs'[length pre := ?e'])"
    if "list_all fits [d, t, a, c, ds]"
    using reread_after_edit [OF assms(1-4,6) that] by simp
  have "\<forall>j < length ?rs'. j \<noteq> length pre \<longrightarrow> ?rs' ! j = (pre @ e # post) ! j"
    by (auto simp: nth_append nth_Cons split: nat.splits)
  then show ?thesis using ed r by (intro exI [of _ ?rs']) simp
qed

lemma example_split:
  "example_records =
     [] @ new_entry ''2'' ''2024-01-01'' ''income'' ''100'' ''salary'' ''Jan'' #
       [new_entry ''3'' ''2024-02-01'' ''expense'' ''40'' ''food'' ''lunch'',
        new_entry ''2'' ''2024-03-01'' ''income'' ''7'' ''misc'' ''again'']"
  by (simp add: example_records_def)

lemma three_records:
  assumes "length rs = 3" and "rs ! 0 = x" and "rs ! 1 = y" and "rs ! 2 = z"
  shows "rs = [x, y, z]"
proof -
  obtain a b c where "rs = [a, b, c]"
    using assms(1) by (auto simp: length_Suc_conv numeral_3_eq_3)
  then show ?thesis using assms(2-4) by simp
qed

theorem edit_entry_duplicate_ids_witness:
  "fst (read_data example_world) = Inr example_records \<and> list_all is_record example_records \<and>
   has_id ''2'' (example_records ! 0) \<and> has_id ''2'' (example_records ! 2) \<and>
   list_all fits [[], [], ''150'', [], []] \<and>
   data_file (snd (edit_entry ''2'' example_world)) = Some (
     ''id,date,type,amount,category,description'' @ [CR, LF] @
     ''2,2024-01-01,income,150,salary,Jan'' @ [CR, LF] @
     ''3,2024-02-01,expense,40,food,lunch'' @ [CR, LF] @
     ''2,2024-03-01,income,7,misc,again'' @ [CR, LF]) \<and>
   fst (read_data (snd (edit_entry ''2'' example_world)))
     = Inr [new_entry ''2'' ''2024-01-01'' ''income'' ''150'' ''salary'' ''Jan'',
            new_entry ''3'' ''2024-02-01'' ''expense'' ''40'' ''food'' ''lunch'',
            new_entry ''2'' ''2024-03-01'' ''income'' ''7'' ''misc'' ''again'']"
proof -
  let ?e = "new_entry ''2'' ''2024-01-01'' ''income'' ''100'' ''salary'' ''Jan''"
  let ?e' = "new_entry ''2'' ''2024-01-01'' ''income'' ''150'' ''salary'' ''Jan''"
  let ?y = "new_entry ''3'' ''2024-02-01'' ''expense'' ''40'' ''food'' ''lunch''"
  let ?z = "new_entry ''2'' ''2024-03-01'' ''income'' ''7'' ''misc'' ''again''"
  let ?post = "[?y, ?z]"
  have rd: "fst (read_data example_world) = Inr ([] @ ?e # ?post)"
    using example_read example_split by simp
  have recs: "list_all is_record ([] @ ?e # ?post)"
    using example_records_ok example_split by simp
  have first: "list_all (\<lambda>x. \<not> has_id ''2'' x) []" by simp
  have hit: "has_id ''2'' ?e" by (simp add: example_ids)
  have dup: "list_ex (has_id ''2'') ?post" by (simp add: example_ids)
  have u: "universal_newlines [] = []" "universal_newlines ''150'' = ''150''" by simp_all
  obtain rs' where rs': "data_file (snd (edit_entry ''2'' example_world)) = Some (store_text rs')"
      "length rs' = length ([] @ ?e # ?post)"
      "rs' ! length ([] :: entry list) = edited ?e [] [] ''150'' [] []"
      "\<forall>j < length rs'. j \<noteq> length ([] :: entry list) \<longrightarrow> rs' ! j = ([] @ ?e # ?post) ! j"
      "list_all fits [[], [], ''150'', [], []] \<longrightarrow>
         fst (read_data (snd (edit_entry ''2'' example_world)))
           = Inr (rs'[length ([] :: entry list) := edited ?e (universal_newlines [])
                    (universal_newlines []) (universal_newlines ''150'')
                    (universal_newlines []) (universal_newlines [])])"
    using edit_entry_duplicate_ids [OF rd recs first hit dup example_stdin] by blast
  have l: "length rs' = 3" using rs'(2) by simp
  have "rs' ! 0 = ?e'" using rs'(3) example_edited by simp
  moreover have "rs' ! 1 = ?y" "rs' ! 2 = ?z" using rs'(4) l by simp_all
  ultimately have eq: "rs' = [?e', ?y, ?z]" using l by (intro three_records)
  have 1: "data_file (snd (edit_entry ''2'' example_world)) = Some (
     ''id,date,type,amount,category,description'' @ [CR, LF] @
     ''2,2024-01-01,income,150,salary,Jan'' @ [CR, LF] @
     ''3,2024-02-01,expense,40,food,lunch'' @ [CR, LF] @
     ''2,2024-03-01,income,7,misc,again'' @ [CR, LF])"
    using rs'(1) unfolding eq example_text_edited .
  have 2: "fst (read_data (snd (edit_entry ''2'' example_world))) = Inr [?e', ?y, ?z]"
    using rs'(5) example_fits unfolding eq u example_edited by simp
  have 3: "has_id ''2'' (example_records ! 0)" "has_id ''2'' (example_records ! 2)"
    by (simp_all add: example_records_def example_ids)
  show ?thesis
    using example_read example_records_ok 3 example_fits 1 2 by (intro conjI)
qed

lemma get_next_id_load:
  "fst (get_next_id w) = Inr k \<Longrightarrow> fst (load_last_id w) = Inr (k - 1)"
  by (cases "load_last_id w")
     (auto simp: get_next_id_def and_then_def result_def split: sum.splits)

text \<open>
  C10. One \<^verbatim>\<open>add_entry\<close> writes back the loaded records, as they were and in their order,
  with one record more at the end; the id of that record is the text \<^verbatim>\<open>str\<close> gives for
  the integer \<^verbatim>\<open>get_next_id\<close> returned, which is also what the counter file then holds.
  When the five answers are within the reader's field limit, the store loads again as the
  records loaded before followed by the new one.
\<close>

theorem add_entry_appends:
  assumes "fst (read_data w) = Inr rs" and "list_all is_record rs"
    and "fst (get_next_id w) = Inr k" and "py_str k = Inr idt"
    and "stdin w = d # t # a # c # ds # rest"
  shows "add_entry w =
           (Inr (), w\<lparr>data_file := Some (store_text (rs @ [new_entry idt d t a c ds])),
                       last_id_file := Some idt,
                       stdin := rest,
                       stdout := stdout w @ [Prompt Ask_date, Prompt Ask_type, Prompt Ask_amount,
                         Prompt Ask_category, Prompt Ask_description, Entry_added]\<rparr>) \<and>
         (list_all fits [d, t, a, c, ds] \<longrightarrow>
            fst (read_data (snd (add_entry w)))
              = Inr (rs @ [new_entry idt (universal_newlines d) (universal_newlines t)
                             (universal_newlines a) (universal_newlines c) (universal_newlines ds)])) \<and>
         dict_item (new_entry idt d t a c ds) (Str ''id'') = Inr (Str idt) \<and>
         idt = int_text k"
proof -
  have cnt: "fst (load_last_id w) = Inr (k - 1)" using assms(3) by (rule get_next_id_load)
  have str: "py_str (k - 1 + 1) = Inr idt" using assms(4) by simp
  have 1: "add_entry w =
           (Inr (), w\<lparr>data_file := Some (store_text (rs @ [new_entry idt d t a c ds])),
                       last_id_file := Some idt,
                       stdin := rest,
                       stdout := stdout w @ [Prompt Ask_date, Prompt Ask_type, Prompt Ask_amount,
                         Prompt Ask_category, Prompt Ask_description, Entry_added]\<rparr>)"
    using assms(1,2) cnt str assms(5) by (rule add_entry_eq)
  have 2: "fst (read_data (snd (add_entry w)))
           = Inr (rs @ [new_entry idt (universal_newlines d) (universal_newlines t)
                          (universal_newlines a) (universal_newlines c) (universal_newlines ds)])"
    if "list_all fits [d, t, a, c, ds]"
  proof -
    have "CR \<notin> set idt" using assms(4) by (auto simp: py_str_Inr int_text_no_CR)
    then have "universal_newlines idt = idt" by (rule un_id)
    then show ?thesis
      using add_entry_step [OF assms(1,2) cnt str assms(5) that] by (auto simp: nl_new_entry)
  qed
  have 3: "dict_item (new_entry idt d t a c ds) (Str ''id'') = Inr (Str idt)"
    by (simp add: new_entry_def dict_item_def)
  have 4: "idt = int_text k" using assms(4) by (simp add: py_str_Inr)
  show ?thesis using 1 2 3 4 by simp
qed

lemma example_text_added:
  "store_text (example_records @ [new_entry ''4'' [] [] ''150'' [] []]) =
     ''id,date,type,amount,category,description'' @ [CR, LF] @
     ''2,2024-01-01,income,100,salary,Jan'' @ [CR, LF] @
     ''3,2024-02-01,expense,40,food,lunch'' @ [CR, LF] @
     ''2,2024-03-01,income,7,misc,again'' @ [CR, LF] @
     ''4,,,150,,'' @ [CR, LF]"
  by (simp add: store_text_def example_records_def new_entry_def record_row_def field_text_def
      headers_def writerow_def join_append_def needs_quote_def special_char_def)

theorem add_entry_appends_witness:
  "fst (read_data example_world) = Inr example_records \<and> list_all is_record example_records \<and>
   fst (get_next_id example_world) = Inr 4 \<and> py_str 4 = Inr ''4'' \<and>
   stdin example_world = [] # [] # ''150'' # [] # [] # [''x''] \<and>
   list_all fits [[], [], ''150'', [], []] \<and>
   data_file (snd (add_entry example_world)) = Some (
     ''id,date,type,amount,category,description'' @ [CR, LF] @
     ''2,2024-01-01,income,100,salary,Jan'' @ [CR, LF] @
     ''3,2024-02-01,expense,40,food,lunch'' @ [CR, LF] @
     ''2,2024-03-01,income,7,misc,again'' @ [CR, LF] @
     ''4,,,150,,'' @ [CR, LF]) \<and>
   fst (read_data (snd (add_entry example_world)))
     = Inr (example_records @ [new_entry ''4'' [] [] ''150'' [] []]) \<and>
   last_id_file (snd (add_entry example_world)) = Some ''4''"
proof -
  have s3: "py_str 3 = Inr ''3''" using py_str_small [of 3] by (simp add: digit_char_def)
  have s4: "py_str 4 = Inr ''4''" using py_str_small [of 4] by (simp add: digit_char_def)
  have "load_last_id example_world = (Inr 3, example_world)"
    using s3 by (rule load_after_save) (simp add: example_world_def)
  then have g: "fst (get_next_id example_world) = Inr 4"
    by (simp add: get_next_id_def and_then_def result_def)
  have n: "universal_newlines [] = []" "universal_newlines ''150'' = ''150''"
    by simp_all
  note th = add_entry_appends [OF example_read example_records_ok g s4 example_stdin]
  have d: "data_file (snd (add_entry example_world)) = Some (
     ''id,date,type,amount,category,description'' @ [CR, LF] @
     ''2,2024-01-01,income,100,salary,Jan'' @ [CR, LF] @
     ''3,2024-02-01,expense,40,food,lunch'' @ [CR, LF] @
     ''2,2024-03-01,income,7,misc,again'' @ [CR, LF] @
     ''4,,,150,,'' @ [CR, LF])"
    using th [THEN conjunct1] unfolding example_text_added [symmetric] by simp
  have r: "fst (read_data (snd (add_entry example_world)))
           = Inr (example_records @ [new_entry ''4'' [] [] ''150'' [] []])"
    using th [THEN conjunct2, THEN conjunct1] example_fits unfolding n by blast
  have l: "last_id_file (snd (add_entry example_world)) = Some ''4''"
    using th [THEN conjunct1] by simp
  show ?thesis
    using example_read example_records_ok g s4 example_stdin example_fits d r l by (intro conjI)
qed

lemma check_and_create_file_absent:
  "data_file w = None \<Longrightarrow>
   check_and_create_file w =
     (Inr (), w\<lparr>stdout := stdout w @ [File_created], data_file := Some (writerow headers)\<rparr>)"
  by (simp add: check_and_create_file_def)

lemma header_only_read:
  assumes "data_file w = Some (writerow headers)"
  shows "fst (read_data w) = Inr []"
proof -
  have "data_file w = Some (store_text [])" using assms by (simp add: store_text_def)
  then have "read_data w = (Inr (map nl_entry []), w)" by (intro read_data_store_text) simp_all
  then show ?thesis by simp
qed

lemma ids_from_two:
  "map (\<lambda>i. Inr (Str (int_text (1 + 1 + int i)))) [0..<N]
   = map (\<lambda>i. Inr (Str (int_text (int i)))) [2..<N + 2]"
proof -
  have f: "(\<lambda>i. Inr (Str (int_text (1 + 1 + int i)))) = (\<lambda>i. Inr (Str (int_text (int (i + 2)))))"
    by (simp add: algebra_simps)
  have "map (\<lambda>i. Inr (Str (int_text (int i)))) [2..<N + 2]
        = map (\<lambda>i. Inr (Str (int_text (int i)))) (map (\<lambda>i. i + 2) [0..<N])"
    by (simp only: map_add_upt)
  also have "\<dots> = map (\<lambda>i. Inr (Str (int_text (int (i + 2))))) [0..<N]"
    by (simp only: map_map comp_def)
  finally have "map (\<lambda>i. Inr (Str (int_text (int (i + 2))))) [0..<N]
                = map (\<lambda>i. Inr (Str (int_text (int i)))) [2..<N + 2]"
    by (rule sym)
  then show ?thesis by (simp only: f)
qed

text \<open>
  C1. From a store holding the header only, as \<^verbatim>\<open>check_and_create_file\<close> makes it
  (lemma \<open>check_and_create_file_absent\<close>), and no counter file, \<open>N\<close> calls of
  \<^verbatim>\<open>add_entry\<close> all succeed when every answer typed is within the reader's field limit
  (131072 characters) and \<^verbatim>\<open>str\<close> accepts \<open>N + 1\<close> (at most 4300 digits); the store then
  loads as \<open>N\<close> records, in the order of the calls, with ids \<^verbatim>\<open>"2"\<close>, \<^verbatim>\<open>"3"\<close>, ..., and the
  counter reads \<open>N + 1\<close>.
\<close>

theorem adds_from_empty_store:
  assumes "data_file w = Some (writerow headers)" and "last_id_file w = None"
    and "stdin w = inputs @ rest" and "length inputs = 5 * N"
    and "list_all fits inputs" and "py_str (int N + 1) = Inr final"
  shows "\<exists>w' rs. repeat_add N w = (Inr (), w') \<and>
           fst (read_data w') = Inr rs \<and>
           rs = added_records 1 inputs \<and>
           length rs = N \<and>
           map (\<lambda>e. dict_item e (Str ''id'')) rs
             = map (\<lambda>i. Inr (Str (int_text (int i)))) [2..<N + 2] \<and>
           fst (load_last_id w') = Inr (int N + 1)"
proof -
  have rd: "fst (read_data w) = Inr []" using assms(1) by (rule header_only_read)
  have cnt: "fst (load_last_id w) = Inr 1" using assms(2) by (simp add: load_last_id_def)
  have fin: "py_str (1 + int N) = Inr final" using assms(6) by (simp add: add.commute)
  obtain w' where w': "repeat_add N w = (Inr (), w')"
      "fst (read_data w') = Inr ([] @ added_records 1 inputs)"
      "fst (load_last_id w') = Inr (1 + int N)"
    using repeat_add_general [OF rd _ cnt _ fin assms(3,4,5)] by auto
  have "length (added_records 1 inputs) = N" using assms(4) by (rule added_records_length)
  moreover have "map (\<lambda>e. dict_item e (Str ''id'')) (added_records 1 inputs)
      = map (\<lambda>i. Inr (Str (int_text (int i)))) [2..<N + 2]"
    using added_records_ids [OF assms(4), of 1] ids_from_two [of N] by simp
  ultimately show ?thesis using w' by (intro exI [of _ w'] exI [of _ "added_records 1 inputs"]) simp
qed

theorem adds_from_empty_store_witness:
  "data_file fresh_world = Some (writerow headers) \<and> last_id_file fresh_world = None \<and>
   stdin fresh_world = [''2024-01-01'', ''income'', ''100'', ''salary'', ''Jan'',
                        ''2024-02-01'', ''expense'', ''40'', ''food'', ''lunch''] @ [] \<and>
   list_all fits [''2024-01-01'', ''income'', ''100'', ''salary'', ''Jan'',
                  ''2024-02-01'', ''expense'', ''40'', ''food'', ''lunch''] \<and>
   py_str (int 2 + 1) = Inr ''3'' \<and>
   (\<exists>w' rs. repeat_add 2 fresh_world = (Inr (), w') \<and>
      fst (read_data w') = Inr rs \<and>
      rs = [new_entry ''2'' ''2024-01-01'' ''income'' ''100'' ''salary'' ''Jan'',
            new_entry ''3'' ''2024-02-01'' ''expense'' ''40'' ''food'' ''lunch''] \<and>
      map (\<lambda>e. dict_item e (Str ''id'')) rs = [Inr (Str ''2''), Inr (Str ''3'')] \<and>
      fst (load_last_id w') = Inr 3)"
proof -
  let ?inputs = "[''2024-01-01'', ''income'', ''100'', ''salary'', ''Jan'',
                  ''2024-02-01'', ''expense'', ''40'', ''food'', ''lunch'']"
  have a: "data_file fresh_world = Some (writerow headers)" by (simp add: fresh_world_def)
  have b: "last_id_file fresh_world = None" by (simp add: fresh_world_def)
  have c: "stdin fresh_world = ?inputs @ []" by (simp add: fresh_world_def)
  have d: "length ?inputs = 5 * 2" by simp
  have fit: "list_all fits ?inputs" by (simp add: fits_def field_limit_def)
  have s3: "py_str (int 2 + 1) = Inr ''3''" using py_str_small [of 3] by (simp add: digit_char_def)
  have e: "added_records 1 ?inputs
           = [new_entry ''2'' ''2024-01-01'' ''income'' ''100'' ''salary'' ''Jan'',
              new_entry ''3'' ''2024-02-01'' ''expense'' ''40'' ''food'' ''lunch'']"
    by (simp add: nl_new_entry int_text_2 int_text_3)
  have f: "map (\<lambda>i. Inr (Str (int_text (int i)))) [2..<2 + 2]
           = ([Inr (Str ''2''), Inr (Str ''3'')] :: (error + pyval) list)"
    by (simp add: upt_rec int_text_2 int_text_3)
  obtain w' rs where r: "repeat_add 2 fresh_world = (Inr (), w')" "fst (read_data w') = Inr rs"
      "rs = added_records 1 ?inputs"
      "map (\<lambda>e. dict_item e (Str ''id'')) rs = map (\<lambda>i. Inr (Str (int_text (int i)))) [2..<2 + 2]"
      "fst (load_last_id w') = Inr (int 2 + 1)"
    using adds_from_empty_store [OF a b c d fit s3] by blast
  have "fst (load_last_id w') = Inr 3" using r(5) by simp
  then have "\<exists>w' rs. repeat_add 2 fresh_world = (Inr (), w') \<and>
      fst (read_data w') = Inr rs \<and>
      rs = [new_entry ''2'' ''2024-01-01'' ''income'' ''100'' ''salary'' ''Jan'',
            new_entry ''3'' ''2024-02-01'' ''expense'' ''40'' ''food'' ''lunch''] \<and>
      map (\<lambda>e. dict_item e (Str ''id'')) rs = [Inr (Str ''2''), Inr (Str ''3'')] \<and>
      fst (load_last_id w') = Inr 3"
    using r(1,2,3,4) e f by (intro exI [of _ w'] exI [of _ rs]) simp
  then show ?thesis using a b c fit s3 by (intro conjI)
qed

lemma oversize_stdin:
  "stdin oversize_world = oversize_answer # [] # [] # [] # [] # [[], [], [], [], []]"
  by (simp add: oversize_world_def)

text \<open>
  C1, as the claim has it, with arbitrary answers: the first of two adds is given an
  answer of 131073 characters. It succeeds and writes the record; the second add then
  ends with \<^verbatim>\<open>csv.Error\<close> when it reads the store, which is left with one record and the
  counter file with 2.
\<close>

theorem second_add_fails_after_oversize_answer:
  "data_file oversize_world = Some (writerow headers) \<and>
   last_id_file oversize_world = None \<and>
   stdin oversize_world = [oversize_answer, [], [], [], [], [], [], [], [], []] \<and>
   length oversize_answer = 131073 \<and>
   fst (add_entry oversize_world) = Inr () \<and>
   fst (repeat_add 2 oversize_world) = Inl CsvError \<and>
   data_file (snd (repeat_add 2 oversize_world))
     = Some (store_text [new_entry ''2'' oversize_answer [] [] [] []]) \<and>
   last_id_file (snd (repeat_add 2 oversize_world)) = Some ''2''"
proof -
  let ?w = oversize_world
  let ?w1 = "?w\<lparr>data_file := Some (store_text ([] @ [new_entry ''2'' oversize_answer [] [] [] []])),
                 last_id_file := Some ''2'',
                 stdin := [[], [], [], [], []],
                 stdout := stdout ?w @ [Prompt Ask_date, Prompt Ask_type, Prompt Ask_amount,
                                       Prompt Ask_category, Prompt Ask_description, Entry_added]\<rparr>"
  have a: "data_file ?w = Some (writerow headers)" "last_id_file ?w = None"
    "stdin ?w = [oversize_answer, [], [], [], [], [], [], [], [], []]"
    by (simp_all add: oversize_world_def)
  have len: "length oversize_answer = 131073" by (simp add: oversize_answer_def)
  have rd: "fst (read_data ?w) = Inr []" using a(1) by (rule header_only_read)
  have cnt: "fst (load_last_id ?w) = Inr 1" using a(2) by (simp add: load_last_id_def)
  have s2: "py_str (1 + 1) = Inr ''2''" using py_str_small [of 2] by (simp add: digit_char_def)
  have s3: "py_str (2 + 1) = Inr ''3''" using py_str_small [of 3] by (simp add: digit_char_def)
  have one: "add_entry ?w = (Inr (), ?w1)"
    using rd _ cnt s2 oversize_stdin by (rule add_entry_eq) simp
  have rd1: "fst (read_data ?w1) = Inl CsvError" by (rule read_oversize) simp
  have "py_str 2 = Inr ''2''" using s2 by simp
  then have "load_last_id ?w1 = (Inr 2, ?w1)" by (rule load_after_save) simp
  then have cnt1: "fst (load_last_id ?w1) = Inr 2" by simp
  have in1: "stdin ?w1 = [] # [] # [] # [] # [] # []" by simp
  note two = add_entry_read_fails [OF rd1 cnt1 s3 in1]
  have r: "repeat_add 2 ?w = add_entry ?w1"
    using one two by (simp add: numeral_2_eq_2 and_then_def)
  have 1: "fst (add_entry ?w) = Inr ()" using one by simp
  have 2: "fst (repeat_add 2 ?w) = Inl CsvError" unfolding r two by simp
  have 3: "data_file (snd (repeat_add 2 ?w))
           = Some (store_text [new_entry ''2'' oversize_answer [] [] [] []])"
    unfolding r two by simp
  have 4: "last_id_file (snd (repeat_add 2 ?w)) = Some ''2''" unfolding r two by simp
  show ?thesis using a len 1 2 3 4 by (intro conjI)
qed

text \<open>
  C4. Writing records and loading them again does not give the records back when a field
  holds a carriage return: \<^verbatim>\<open>write_data\<close> opens the file with \<^verbatim>\<open>newline=''\<close> and writes the
  character as it is, inside quotes, while \<^verbatim>\<open>read_data\<close> opens it without, so that the
  character arrives as a line feed. In general the records come back with the newlines of
  every field translated (lemma \<open>write_then_read\<close>).
\<close>

theorem carriage_return_not_read_back:
  "fst (read_data (snd (write_data
      [new_entry ''2'' ''2024-01-01'' ''income'' ''100'' ''salary'' [CHR ''J'', CHR ''a'', CHR ''n'', CR]]
      fresh_world)))
   = Inr [new_entry ''2'' ''2024-01-01'' ''income'' ''100'' ''salary'' [CHR ''J'', CHR ''a'', CHR ''n'', LF]] \<and>
   new_entry ''2'' ''2024-01-01'' ''income'' ''100'' ''salary'' [CHR ''J'', CHR ''a'', CHR ''n'', LF]
   \<noteq> new_entry ''2'' ''2024-01-01'' ''income'' ''100'' ''salary'' [CHR ''J'', CHR ''a'', CHR ''n'', CR]"
proof -
  let ?e = "new_entry ''2'' ''2024-01-01'' ''income'' ''100'' ''salary'' [CHR ''J'', CHR ''a'', CHR ''n'', CR]"
  have "fst (read_data (snd (write_data [?e] fresh_world))) = Inr (map nl_entry [?e])"
    by (rule write_then_read)
       (simp_all add: is_record_new_entry loadable_new_entry fits_def field_limit_def)
  then show ?thesis by (simp add: nl_new_entry) (simp add: new_entry_def)
qed

end
